theory Spec2Isabelle
  imports Main "HOL-Library.Multiset"
begin

section \<open>Python values used by the notebook\<close>

text \<open>
  The notebook \<^verbatim>\<open>doc/source/ray-core/examples/map_reduce.ipynb\<close> works on
  \<^verbatim>\<open>bytes\<close> objects (the output of \<^verbatim>\<open>subprocess.check_output\<close>). A
  \<^typ>\<open>char\<close> is one byte, so a \<^verbatim>\<open>bytes\<close> object is a \<^typ>\<open>string\<close>.
  Python integers are unbounded: \<^typ>\<open>int\<close>. A dictionary keeps its insertion
  order: an association list with distinct keys.
\<close>

type_synonym bytes = string

type_synonym pair = "bytes \<times> int"

type_synonym bucket = "pair list"

type_synonym dict = "(bytes \<times> int) list"

datatype error =
  ZeroDivisionError | UnicodeDecodeError | IndexError | KeyError | ValueError | TypeError

text \<open>A loop whose body may raise: the first exception ends the loop.\<close>

fun for_each :: "('s \<Rightarrow> 'a \<Rightarrow> error + 's) \<Rightarrow> 's \<Rightarrow> 'a list \<Rightarrow> error + 's" where
  "for_each body s [] = Inr s"
| "for_each body s (x # xs) =
     (case body s x of Inl e \<Rightarrow> Inl e | Inr s' \<Rightarrow> for_each body s' xs)"

subsection \<open>Integers, ranges, slices and list items\<close>

definition py_floordiv :: "int \<Rightarrow> int \<Rightarrow> error + int" where
  \<comment> \<open>\<^verbatim>\<open>a // b\<close>: floor division, as \<open>div\<close> on \<^typ>\<open>int\<close>.\<close>
  "py_floordiv a b = (if b = 0 then Inl ZeroDivisionError else Inr (a div b))"

definition py_mod :: "int \<Rightarrow> int \<Rightarrow> error + int" where
  \<comment> \<open>\<^verbatim>\<open>a % b\<close>: the result has the sign of \<open>b\<close>, as \<open>mod\<close> on \<^typ>\<open>int\<close>.\<close>
  "py_mod a b = (if b = 0 then Inl ZeroDivisionError else Inr (a mod b))"

definition py_range :: "int \<Rightarrow> int list" where
  \<comment> \<open>\<^verbatim>\<open>range(n)\<close>: empty when \<open>n \<le> 0\<close>.\<close>
  "py_range n = map int [0..<nat n]"

definition slice_bound :: "int \<Rightarrow> nat \<Rightarrow> nat" where
  \<comment> \<open>A slice bound: negative bounds count from the end, all bounds are clamped.\<close>
  "slice_bound i len = (if i < 0 then nat (max 0 (i + int len)) else min (nat i) len)"

definition py_slice :: "'a list \<Rightarrow> int \<Rightarrow> int \<Rightarrow> 'a list" where
  \<comment> \<open>\<^verbatim>\<open>xs[a:b]\<close>\<close>
  "py_slice xs a b =
     (let lo = slice_bound a (length xs); hi = slice_bound b (length xs)
      in take (hi - lo) (drop lo xs))"

definition list_append_at :: "'a list list \<Rightarrow> int \<Rightarrow> 'a \<Rightarrow> error + 'a list list" where
  \<comment> \<open>\<^verbatim>\<open>xss[i].append(x)\<close>: the subscript raises IndexError out of range.\<close>
  "list_append_at xss i x =
     (let len = int (length xss); j = (if i < 0 then i + len else i)
      in if 0 \<le> j \<and> j < len then Inr (xss[nat j := xss ! nat j @ [x]])
         else Inl IndexError)"

subsection \<open>Bytes: lower, split, decode\<close>

definition byte_val :: "char \<Rightarrow> nat" where
  "byte_val c = of_char c"

definition isspace :: "char \<Rightarrow> bool" where
  \<comment> \<open>ASCII whitespace of \<^verbatim>\<open>bytes.split()\<close>: tab, LF, VT, FF, CR and space.\<close>
  "isspace c = (let b = byte_val c in (9 \<le> b \<and> b \<le> 13) \<or> b = 32)"

definition lower_byte :: "char \<Rightarrow> char" where
  "lower_byte c = (let b = byte_val c in if 65 \<le> b \<and> b \<le> 90 then char_of (b + 32) else c)"

definition bytes_lower :: "bytes \<Rightarrow> bytes" where
  \<comment> \<open>\<^verbatim>\<open>bytes.lower()\<close>: only the ASCII capitals change.\<close>
  "bytes_lower s = map lower_byte s"

fun split_from :: "bytes \<Rightarrow> bytes \<Rightarrow> bytes list" where
  "split_from cur [] = (if cur = [] then [] else [cur])"
| "split_from cur (c # cs) =
     (if isspace c then (if cur = [] then split_from [] cs else cur # split_from [] cs)
      else split_from (cur @ [c]) cs)"

definition bytes_split :: "bytes \<Rightarrow> bytes list" where
  \<comment> \<open>\<^verbatim>\<open>bytes.split()\<close> with no separator: the maximal runs of non-whitespace bytes.\<close>
  "bytes_split s = split_from [] s"

definition is_cont :: "nat \<Rightarrow> bool" where
  "is_cont b = (128 \<le> b \<and> b \<le> 191)"

text \<open>
  \<^verbatim>\<open>bytes.decode("utf-8")\<close> in strict mode: the code points of a well-formed UTF-8
  byte sequence, and \<open>None\<close> (UnicodeDecodeError) for overlong forms, surrogates, code
  points above U+10FFFF, stray continuation bytes and truncated sequences.
\<close>

fun utf8_decode :: "nat list \<Rightarrow> nat list option" where
  "utf8_decode [] = Some []"
| "utf8_decode (b0 # bs) =
     (if b0 < 128 then map_option ((#) b0) (utf8_decode bs)
      else if 194 \<le> b0 \<and> b0 \<le> 223 then
        (case bs of
           b1 # r \<Rightarrow>
             if is_cont b1
             then map_option ((#) ((b0 - 192) * 64 + (b1 - 128))) (utf8_decode r)
             else None
         | _ \<Rightarrow> None)
      else if 224 \<le> b0 \<and> b0 \<le> 239 then
        (case bs of
           b1 # b2 # r \<Rightarrow>
             if (if b0 = 224 then 160 else 128) \<le> b1
                \<and> b1 \<le> (if b0 = 237 then 159 else 191) \<and> is_cont b2
             then map_option
                    ((#) ((b0 - 224) * 4096 + (b1 - 128) * 64 + (b2 - 128)))
                    (utf8_decode r)
             else None
         | _ \<Rightarrow> None)
      else if 240 \<le> b0 \<and> b0 \<le> 244 then
        (case bs of
           b1 # b2 # b3 # r \<Rightarrow>
             if (if b0 = 240 then 144 else 128) \<le> b1
                \<and> b1 \<le> (if b0 = 244 then 143 else 191) \<and> is_cont b2 \<and> is_cont b3
             then map_option
                    ((#) ((b0 - 240) * 262144 + (b1 - 128) * 4096
                          + (b2 - 128) * 64 + (b3 - 128)))
                    (utf8_decode r)
             else None
         | _ \<Rightarrow> None)
      else None)"

definition first_letter_ord :: "bytes \<Rightarrow> error + nat" where
  \<comment> \<open>\<^verbatim>\<open>ord(word.decode("utf-8")[0])\<close>\<close>
  "first_letter_ord word =
     (case utf8_decode (map byte_val word) of
        None \<Rightarrow> Inl UnicodeDecodeError
      | Some [] \<Rightarrow> Inl IndexError
      | Some (c # _) \<Rightarrow> Inr c)"

subsection \<open>Dictionaries\<close>

definition dict_contains :: "bytes \<Rightarrow> dict \<Rightarrow> bool" where
  "dict_contains k d = (map_of d k \<noteq> None)"

definition dict_getitem :: "dict \<Rightarrow> bytes \<Rightarrow> error + int" where
  "dict_getitem d k = (case map_of d k of None \<Rightarrow> Inl KeyError | Some v \<Rightarrow> Inr v)"

fun dict_setitem :: "bytes \<Rightarrow> int \<Rightarrow> dict \<Rightarrow> dict" where
  \<comment> \<open>\<^verbatim>\<open>d[k] = v\<close>: a present key keeps its position, a new key goes last.\<close>
  "dict_setitem k v [] = [(k, v)]"
| "dict_setitem k v ((k', v') # d) =
     (if k' = k then (k', v) # d else (k', v') # dict_setitem k v d)"

section \<open>The notebook's functions\<close>

definition partitions :: "bytes list \<Rightarrow> int \<Rightarrow> error + bytes list list" where
  \<comment> \<open>\<^verbatim>\<open>chunk = len(corpus) // num_partitions\<close> and the list of slices.\<close>
  "partitions corpus num_partitions =
     (case py_floordiv (int (length corpus)) num_partitions of
        Inl e \<Rightarrow> Inl e
      | Inr chunk \<Rightarrow>
          Inr (map (\<lambda>i. py_slice corpus (i * chunk) ((i + 1) * chunk))
                 (py_range num_partitions)))"

definition map_function :: "bytes \<Rightarrow> pair list" where
  "map_function document = map (\<lambda>word. (word, 1)) (bytes_split (bytes_lower document))"

definition word_index :: "bytes \<Rightarrow> int \<Rightarrow> error + int" where
  \<comment> \<open>\<^verbatim>\<open>ord(result[0].decode("utf-8")[0]) % num_partitions\<close>\<close>
  "word_index key num_partitions =
     (case first_letter_ord key of
        Inl e \<Rightarrow> Inl e
      | Inr c \<Rightarrow> py_mod (int c) num_partitions)"

definition place :: "int \<Rightarrow> bucket list \<Rightarrow> pair \<Rightarrow> error + bucket list" where
  \<comment> \<open>The body of the inner loop of \<^verbatim>\<open>apply_map\<close>.\<close>
  "place num_partitions map_results result =
     (case word_index (fst result) num_partitions of
        Inl e \<Rightarrow> Inl e
      | Inr wi \<Rightarrow> list_append_at map_results wi result)"

definition apply_map :: "bytes list \<Rightarrow> int \<Rightarrow> error + bucket list" where
  "apply_map corpus num_partitions =
     for_each (\<lambda>map_results document.
                 for_each (place num_partitions) map_results (map_function document))
       (replicate (nat num_partitions) []) corpus"

definition reduce_step :: "dict \<Rightarrow> pair \<Rightarrow> error + dict" where
  \<comment> \<open>The body of the inner loop of \<^verbatim>\<open>apply_reduce\<close>.\<close>
  "reduce_step reduce_results kv =
     (let key = fst kv; val = snd kv;
          d = (if \<not> dict_contains key reduce_results
               then dict_setitem key 0 reduce_results else reduce_results)
      in case dict_getitem d key of
           Inl e \<Rightarrow> Inl e
         | Inr cur \<Rightarrow> Inr (dict_setitem key (cur + val) d))"

definition apply_reduce :: "bucket list \<Rightarrow> error + dict" where
  "apply_reduce results =
     for_each (\<lambda>reduce_results res. for_each reduce_step reduce_results res) [] results"

section \<open>The task runtime\<close>

text \<open>
  Modelled from the spec: the remote-task primitives the notebook calls
  (\<^verbatim>\<open>f.options(num_returns=n).remote(...)\<close>, object references passed as task
  arguments, \<^verbatim>\<open>ray.get\<close>) belong to the runtime and are not in the notebook.
  Following sections 4.3, 4.5 and 7 of the specification: a Mapper's output is published
  as one reference per bucket; a reference resolves to what its task returned, or to the
  failure of that task; a task that depends on a failed task fails too; the caller
  observes the first failure, and otherwise the values in the order of the references.
  One point follows the runtime's interface and not the specification: submitted with
  \<^verbatim>\<open>num_returns=1\<close>, \<^verbatim>\<open>.remote()\<close> returns a single object reference and
  not a list of one, and a reference has no subscript, so \<^verbatim>\<open>partition[i]\<close> raises
  TypeError in the driver.
  Tasks are functions of their arguments, so the order in which the runtime executes
  them is not visible in these definitions (it is in the scheduling relation below).
\<close>

type_synonym 'a object_ref = "error + 'a"

datatype 'a remote_result = ObjectRef "'a list object_ref" | ObjectRefs "'a object_ref list"

fun try_map :: "('a \<Rightarrow> error + 'b) \<Rightarrow> 'a list \<Rightarrow> error + 'b list" where
  \<comment> \<open>A list comprehension whose element expression may raise.\<close>
  "try_map f [] = Inr []"
| "try_map f (x # xs) =
     (case f x of
        Inl e \<Rightarrow> Inl e
      | Inr y \<Rightarrow> (case try_map f xs of Inl e \<Rightarrow> Inl e | Inr ys \<Rightarrow> Inr (y # ys)))"

definition return_refs :: "nat \<Rightarrow> error + 'a list \<Rightarrow> 'a object_ref list" where
  \<comment> \<open>Modelled from the spec: the \<open>n\<close> references of a task with \<open>n\<close> return values;
      the task must return exactly \<open>n\<close> values.\<close>
  "return_refs n r =
     map (\<lambda>j. case r of
                 Inl e \<Rightarrow> Inl e
               | Inr xs \<Rightarrow> if length xs = n then Inr (xs ! j) else Inl ValueError)
       [0..<n]"

definition remote_returns :: "nat \<Rightarrow> error + 'a list \<Rightarrow> 'a remote_result" where
  \<comment> \<open>Modelled from the spec: what \<^verbatim>\<open>.remote()\<close> returns for \<^verbatim>\<open>num_returns=n\<close>:
      one reference to the whole return value for \<open>n = 1\<close>, a list of \<open>n\<close> references
      otherwise.\<close>
  "remote_returns n r = (if n = 1 then ObjectRef r else ObjectRefs (return_refs n r))"

fun subscript :: "'a remote_result \<Rightarrow> int \<Rightarrow> error + 'a object_ref" where
  \<comment> \<open>\<^verbatim>\<open>partition[i]\<close>: a single reference is not subscriptable, a list is indexed
      as any Python list.\<close>
  "subscript (ObjectRef r) i = Inl TypeError"
| "subscript (ObjectRefs refs) i =
     (let len = int (length refs); j = (if i < 0 then i + len else i)
      in if 0 \<le> j \<and> j < len then Inr (refs ! nat j) else Inl IndexError)"

fun ray_get :: "'a object_ref list \<Rightarrow> error + 'a list" where
  \<comment> \<open>Modelled from the spec: \<^verbatim>\<open>ray.get\<close> on a list of references.\<close>
  "ray_get [] = Inr []"
| "ray_get (r # rs) =
     (case r of
        Inl e \<Rightarrow> Inl e
      | Inr v \<Rightarrow> (case ray_get rs of Inl e \<Rightarrow> Inl e | Inr vs \<Rightarrow> Inr (v # vs)))"

definition remote_call :: "('a list \<Rightarrow> error + 'b) \<Rightarrow> 'a object_ref list \<Rightarrow> 'b object_ref" where
  \<comment> \<open>Modelled from the spec: \<^verbatim>\<open>f.remote(*refs)\<close>, the task runs once its
      arguments are resolved.\<close>
  "remote_call f refs = (case ray_get refs of Inl e \<Rightarrow> Inl e | Inr args \<Rightarrow> f args)"

section \<open>The driver cells\<close>

definition map_results :: "bytes list list \<Rightarrow> int \<Rightarrow> bucket remote_result list" where
  \<comment> \<open>One \<^verbatim>\<open>apply_map\<close> task per partition, each with \<^verbatim>\<open>num_partitions\<close> returns.\<close>
  "map_results parts num_partitions =
     map (\<lambda>data. remote_returns (nat num_partitions) (apply_map data num_partitions)) parts"

definition reducer_refs :: "bucket remote_result list \<Rightarrow> int \<Rightarrow> error + bucket object_ref list" where
  \<comment> \<open>\<^verbatim>\<open>[partition[i] for partition in map_results]\<close>\<close>
  "reducer_refs mres i = try_map (\<lambda>partition. subscript partition i) mres"

definition outputs :: "bucket remote_result list \<Rightarrow> int \<Rightarrow> error + dict object_ref list" where
  \<comment> \<open>The loop that submits reducer \<open>i\<close> on return value \<open>i\<close> of every mapper; an
      exception of the subscript ends it.\<close>
  "outputs mres num_partitions =
     try_map (\<lambda>i. case reducer_refs mres i of
                     Inl e \<Rightarrow> Inl e
                   | Inr refs \<Rightarrow> Inr (remote_call apply_reduce refs))
       (py_range num_partitions)"

definition counts :: "dict list \<Rightarrow> dict" where
  \<comment> \<open>\<^verbatim>\<open>{k: v for output in ray.get(outputs) for k, v in output.items()}\<close>\<close>
  "counts outs = fold (\<lambda>kv c. dict_setitem (fst kv) (snd kv) c) (concat outs) []"

definition reducer_results :: "bytes list \<Rightarrow> int \<Rightarrow> error + dict list" where
  \<comment> \<open>\<^verbatim>\<open>ray.get(outputs)\<close> for a corpus and a partition count.\<close>
  "reducer_results corpus num_partitions =
     (case partitions corpus num_partitions of
        Inl e \<Rightarrow> Inl e
      | Inr parts \<Rightarrow>
          (case outputs (map_results parts num_partitions) num_partitions of
             Inl e \<Rightarrow> Inl e
           | Inr outs \<Rightarrow> ray_get outs))"

definition run_job :: "bytes list \<Rightarrow> int \<Rightarrow> error + dict" where
  \<comment> \<open>The cells in order: partition, map, shuffle and reduce, merge.\<close>
  "run_job corpus num_partitions =
     (case reducer_results corpus num_partitions of
        Inl e \<Rightarrow> Inl e
      | Inr outs \<Rightarrow> Inr (counts outs))"

section \<open>The naive word count\<close>

definition all_words :: "bytes list \<Rightarrow> bytes list" where
  \<comment> \<open>The keys the map function emits over the documents, in order.\<close>
  "all_words docs = concat (map (\<lambda>document. map fst (map_function document)) docs)"

definition naive_word_count :: "bytes list \<Rightarrow> bytes \<Rightarrow> int option" where
  \<comment> \<open>Every word of every document counted once; a word that never occurs has no entry.\<close>
  "naive_word_count docs w =
     (if w \<in> set (all_words docs) then Some (int (count_list (all_words docs) w)) else None)"

section \<open>Notions used in the statements\<close>

definition key_total :: "bytes \<Rightarrow> pair list \<Rightarrow> int" where
  \<comment> \<open>The sum of the values of the pairs with key \<open>k\<close>.\<close>
  "key_total k ps = sum_list (map snd (filter (\<lambda>p. fst p = k) ps))"

definition held :: "dict \<Rightarrow> bytes \<Rightarrow> int" where
  \<comment> \<open>What a dictionary holds for a key so far, 0 for an absent key.\<close>
  "held d k = (case map_of d k of None \<Rightarrow> 0 | Some c \<Rightarrow> c)"

definition decodable :: "bytes \<Rightarrow> bool" where
  \<comment> \<open>The word is well-formed UTF-8: \<^verbatim>\<open>decode("utf-8")\<close> does not raise.\<close>
  "decodable w = (utf8_decode (map byte_val w) \<noteq> None)"

definition emitted :: "bytes list \<Rightarrow> pair list" where
  \<comment> \<open>The pairs the map function emits over the documents of a shard, in order.\<close>
  "emitted shard = concat (map map_function shard)"

definition chunk_of :: "'a list \<Rightarrow> int \<Rightarrow> nat" where
  \<comment> \<open>\<^verbatim>\<open>chunk\<close> for a positive partition count, as a natural number.\<close>
  "chunk_of corpus n = length corpus div nat n"

definition bucket_filter :: "int \<Rightarrow> nat \<Rightarrow> pair list \<Rightarrow> pair list" where
  \<comment> \<open>The pairs whose key has bucket index \<open>j\<close>, in order.\<close>
  "bucket_filter n j ps = filter (\<lambda>p. word_index (fst p) n = Inr (int j)) ps"

definition ref_lists :: "bytes list list \<Rightarrow> int \<Rightarrow> bucket object_ref list list" where
  \<comment> \<open>The lists of references of the mappers, for two partitions or more.\<close>
  "ref_lists parts n = map (\<lambda>data. return_refs (nat n) (apply_map data n)) parts"

definition reducer_tasks :: "bucket object_ref list list \<Rightarrow> int \<Rightarrow> dict object_ref list" where
  \<comment> \<open>The reducers' references when every subscript is in range.\<close>
  "reducer_tasks rls n =
     map (\<lambda>i. remote_call apply_reduce (map (\<lambda>partition. partition ! nat i) rls))
       (py_range n)"

definition sharded :: "bytes list \<Rightarrow> int \<Rightarrow> bytes list" where
  \<comment> \<open>The documents that are in some shard: the first \<open>n * chunk\<close> of the corpus.\<close>
  "sharded corpus n = take (nat n * chunk_of corpus n) corpus"

text \<open>
  Modelled from the spec: the order in which the runtime finishes the tasks and delivers
  their results is not in the notebook. Following sections 4.3, 4.5 and 5 of the
  specification, the mapper tasks run in parallel and finish in any order; a reducer
  task waits for every mapper task (the join barrier between the two phases); the
  contributions of the different mappers reach a reducer in no guaranteed order; the
  reducer tasks finish in any order; and the job is complete when every reducer has
  reported. A state records what each submitted task has returned so far.
\<close>

record sched =
  map_done :: "bucket remote_result option list"
  red_done :: "dict object_ref option list"

definition submitted :: "bytes list list \<Rightarrow> int \<Rightarrow> sched" where
  \<comment> \<open>Modelled from the spec: all tasks submitted, none finished.\<close>
  "submitted parts n =
     \<lparr>map_done = replicate (length parts) None, red_done = replicate (nat n) None\<rparr>"

text \<open>
  Modelled from the spec: one task finishes. A mapper that has not finished returns what
  \<open>apply_map\<close> returns on its shard. A reducer that has not finished, once every
  mapper has, returns what \<open>apply_reduce\<close> returns on return value \<open>j\<close> of every
  mapper, taken in any order.
\<close>

inductive task_step :: "bytes list list \<Rightarrow> int \<Rightarrow> sched \<Rightarrow> sched \<Rightarrow> bool"
  for parts n where
  mapper_done:
    "i < length parts \<Longrightarrow> i < length (map_done s) \<Longrightarrow> map_done s ! i = None \<Longrightarrow>
     task_step parts n s
       (s\<lparr>map_done := (map_done s)
            [i := Some (remote_returns (nat n) (apply_map (parts ! i) n))]\<rparr>)"
| reducer_done:
    "j < nat n \<Longrightarrow> j < length (red_done s) \<Longrightarrow> red_done s ! j = None \<Longrightarrow>
     those (map_done s) = Some mres \<Longrightarrow> reducer_refs mres (int j) = Inr refs \<Longrightarrow>
     mset arrived = mset refs \<Longrightarrow>
     task_step parts n s
       (s\<lparr>red_done := (red_done s)[j := Some (remote_call apply_reduce arrived)]\<rparr>)"

definition job_result :: "sched \<Rightarrow> (error + dict) option" where
  \<comment> \<open>Modelled from the spec: the result of a complete run, \<^verbatim>\<open>counts\<close> over
      \<^verbatim>\<open>ray.get(outputs)\<close>; \<open>None\<close> while a reducer has not finished.\<close>
  "job_result s =
     (case those (red_done s) of
        None \<Rightarrow> None
      | Some outs \<Rightarrow> Some (case ray_get outs of Inl e \<Rightarrow> Inl e | Inr ds \<Rightarrow> Inr (counts ds)))"

text \<open>
  Modelled from the spec: a complete run of the cells on a corpus and a partition
  count. The driver raises in the partition cell or while it submits the reducers, or
  the tasks run to the end in some order.
\<close>

inductive job_run :: "bytes list \<Rightarrow> int \<Rightarrow> error + dict \<Rightarrow> bool"
  for corpus n where
  partition_raises:
    "partitions corpus n = Inl e \<Longrightarrow> job_run corpus n (Inl e)"
| submit_raises:
    "partitions corpus n = Inr parts \<Longrightarrow> outputs (map_results parts n) n = Inl e \<Longrightarrow>
     job_run corpus n (Inl e)"
| completes:
    "partitions corpus n = Inr parts \<Longrightarrow> outputs (map_results parts n) n = Inr outs \<Longrightarrow>
     (task_step parts n)\<^sup>*\<^sup>* (submitted parts n) s \<Longrightarrow> job_result s = Some r \<Longrightarrow>
     job_run corpus n r"

fun same_result :: "error + dict \<Rightarrow> error + dict \<Rightarrow> bool" where
  \<comment> \<open>The same exception, or dictionaries with the same keys and the same value for
      every key.\<close>
  "same_result (Inl e) (Inl e') = (e = e')"
| "same_result (Inr c) (Inr c') = (map_of c = map_of c')"
| "same_result _ _ = False"

definition sched_ok :: "bytes list list \<Rightarrow> int \<Rightarrow> sched \<Rightarrow> bool" where
  \<comment> \<open>Every finished mapper holds the result of \<open>apply_map\<close>, every finished reducer
      the result of \<open>apply_reduce\<close> on some arrangement of its references.\<close>
  "sched_ok parts n s \<longleftrightarrow>
     length (map_done s) = length parts \<and> length (red_done s) = nat n
     \<and> (\<forall>i<length parts. \<forall>m. map_done s ! i = Some m \<longrightarrow> m = map_results parts n ! i)
     \<and> (\<forall>j<nat n. \<forall>d. red_done s ! j = Some d \<longrightarrow>
           (\<exists>refs arrived. reducer_refs (map_results parts n) (int j) = Inr refs
              \<and> mset arrived = mset refs \<and> d = remote_call apply_reduce arrived))"

section \<open>Verification\<close>

subsection \<open>Loops, dictionaries and the reduce loop\<close>

lemma for_each_append:
  "for_each body s (xs @ ys) =
     (case for_each body s xs of Inl e \<Rightarrow> Inl e | Inr s' \<Rightarrow> for_each body s' ys)"
  by (induction xs arbitrary: s) (auto split: sum.splits)

lemma for_each_nested:
  "for_each (\<lambda>s x. for_each body s (g x)) s xs = for_each body s (concat (map g xs))"
  by (induction xs arbitrary: s) (auto simp: for_each_append split: sum.splits)

lemma map_of_dict_setitem: "map_of (dict_setitem k v d) = (map_of d)(k \<mapsto> v)"
  by (induction d) (auto simp: fun_eq_iff)

lemma keys_dict_setitem:
  "map fst (dict_setitem k v d) = (if k \<in> fst ` set d then map fst d else map fst d @ [k])"
proof (induction d)
  case Nil
  show ?case by simp
next
  case (Cons kv d)
  show ?case
  proof (cases "fst kv = k")
    case True
    then show ?thesis by (cases kv) simp
  next
    case False
    then show ?thesis using Cons.IH by (cases kv) auto
  qed
qed

lemma distinct_dict_setitem:
  "distinct (map fst d) \<Longrightarrow> distinct (map fst (dict_setitem k v d))"
  by (simp add: keys_dict_setitem)

lemma key_total_absent: "k \<notin> fst ` set ps \<Longrightarrow> key_total k ps = 0"
proof -
  assume "k \<notin> fst ` set ps"
  then have "filter (\<lambda>p. fst p = k) ps = []"
    by (auto simp: filter_empty_conv)
  then show ?thesis by (simp add: key_total_def)
qed

lemma key_total_Cons:
  "key_total k (p # ps) = (if fst p = k then snd p else 0) + key_total k ps"
  by (simp add: key_total_def)

lemma reduce_step_Inr:
  "reduce_step d kv =
     Inr (dict_setitem (fst kv) (held d (fst kv) + snd kv)
            (if map_of d (fst kv) = None then dict_setitem (fst kv) 0 d else d))"
  by (simp add: reduce_step_def dict_contains_def dict_getitem_def held_def Let_def
      map_of_dict_setitem split: option.splits)

lemma reduce_step_lookup:
  assumes "reduce_step d kv = Inr d'"
  shows "map_of d' = (map_of d)(fst kv \<mapsto> held d (fst kv) + snd kv)"
  using assms by (auto simp: reduce_step_Inr map_of_dict_setitem)

lemma reduce_step_distinct:
  assumes "reduce_step d kv = Inr d'" "distinct (map fst d)"
  shows "distinct (map fst d')"
  using assms by (auto simp: reduce_step_Inr intro!: distinct_dict_setitem)

lemma reduce_loop:
  "distinct (map fst d) \<Longrightarrow>
   \<exists>d'. for_each reduce_step d ps = Inr d' \<and> distinct (map fst d')
      \<and> (\<forall>k. map_of d' k =
            (if k \<in> fst ` set ps then Some (held d k + key_total k ps) else map_of d k))"
proof (induction ps arbitrary: d)
  case Nil
  then show ?case by simp
next
  case (Cons p ps)
  obtain d1 where d1: "reduce_step d p = Inr d1"
    by (simp add: reduce_step_Inr)
  have dist1: "distinct (map fst d1)"
    using d1 Cons.prems by (rule reduce_step_distinct)
  have look1: "map_of d1 = (map_of d)(fst p \<mapsto> held d (fst p) + snd p)"
    using d1 by (rule reduce_step_lookup)
  from Cons.IH [OF dist1] obtain d' where
    run: "for_each reduce_step d1 ps = Inr d'" and dist': "distinct (map fst d')"
    and look': "\<forall>k. map_of d' k =
            (if k \<in> fst ` set ps then Some (held d1 k + key_total k ps) else map_of d1 k)"
    by blast
  have "for_each reduce_step d (p # ps) = Inr d'"
    using d1 run by simp
  moreover have "map_of d' k =
      (if k \<in> fst ` set (p # ps) then Some (held d k + key_total k (p # ps)) else map_of d k)" for k
    using look' [rule_format, of k] look1
    by (auto simp: held_def key_total_Cons key_total_absent)
  ultimately show ?case using dist' by blast
qed

subsection \<open>The map loop\<close>

lemma split_from_nonempty: "w \<in> set (split_from cur s) \<Longrightarrow> w \<noteq> []"
  by (induction s arbitrary: cur) (auto split: if_splits)

lemma map_function_key_nonempty: "p \<in> set (map_function document) \<Longrightarrow> fst p \<noteq> []"
  by (auto simp: map_function_def bytes_split_def dest: split_from_nonempty)

lemma map_function_value: "p \<in> set (map_function document) \<Longrightarrow> snd p = 1"
  by (auto simp: map_function_def)

lemma emitted_key_nonempty: "p \<in> set (emitted shard) \<Longrightarrow> fst p \<noteq> []"
  by (auto simp: emitted_def dest: map_function_key_nonempty)

lemma utf8_decode_nonempty: "utf8_decode (b # bs) = Some cs \<Longrightarrow> cs \<noteq> []"
  by (auto split: if_splits list.splits)

lemma first_letter_ord_decodable:
  assumes "w \<noteq> []" "decodable w"
  shows "\<exists>c. first_letter_ord w = Inr c"
proof -
  obtain b bs where w: "map byte_val w = b # bs"
    using assms(1) by (cases w) auto
  obtain cs where cs: "utf8_decode (b # bs) = Some cs"
    using assms(2) w by (auto simp: decodable_def)
  then have "cs \<noteq> []" by (rule utf8_decode_nonempty)
  then show ?thesis
    using cs w by (cases cs) (auto simp: first_letter_ord_def)
qed

lemma first_letter_ord_undecodable:
  "\<not> decodable w \<Longrightarrow> first_letter_ord w = Inl UnicodeDecodeError"
  by (simp add: decodable_def first_letter_ord_def)

lemma word_index_range:
  assumes "0 < n" "word_index w n = Inr j"
  shows "0 \<le> j \<and> j < n"
  using assms by (auto simp: word_index_def py_mod_def split: sum.splits if_splits)

lemma word_index_decodable:
  assumes "0 < n" "w \<noteq> []" "decodable w"
  shows "\<exists>j. word_index w n = Inr j"
  using first_letter_ord_decodable [OF assms(2,3)] assms(1)
  by (auto simp: word_index_def py_mod_def)

lemma word_index_undecodable:
  "\<not> decodable w \<Longrightarrow> word_index w n = Inl UnicodeDecodeError"
  by (simp add: word_index_def first_letter_ord_undecodable)

lemma place_Inr:
  assumes "0 < n" "length mr = nat n" "word_index (fst p) n = Inr j"
  shows "place n mr p = Inr (mr[nat j := mr ! nat j @ [p]])"
  using assms word_index_range [OF assms(1,3)]
  by (simp add: place_def list_append_at_def Let_def)

lemma mset_concat_append_at:
  "j < length xss \<Longrightarrow> mset (concat (xss[j := xss ! j @ [x]])) = add_mset x (mset (concat xss))"
proof (induction xss arbitrary: j)
  case Nil
  then show ?case by simp
next
  case (Cons xs xss)
  then show ?case by (cases j) auto
qed

lemma place_loop_ok:
  assumes "0 < n"
  shows "length mr = nat n \<Longrightarrow> \<forall>p\<in>set ps. fst p \<noteq> [] \<and> decodable (fst p) \<Longrightarrow>
     \<exists>bs. for_each (place n) mr ps = Inr bs \<and> length bs = nat n
        \<and> mset (concat bs) = mset (concat mr) + mset ps
        \<and> (\<forall>j<nat n. bs ! j = mr ! j @ filter (\<lambda>p. word_index (fst p) n = Inr (int j)) ps)"
proof (induction ps arbitrary: mr)
  case Nil
  then show ?case by simp
next
  case (Cons p ps)
  obtain i where i: "word_index (fst p) n = Inr i"
    using word_index_decodable [OF assms] Cons.prems(2) by force
  have irange: "0 \<le> i" "i < n"
    using word_index_range [OF assms i] by auto
  define mr1 where "mr1 = mr[nat i := mr ! nat i @ [p]]"
  have step: "place n mr p = Inr mr1"
    unfolding mr1_def using assms Cons.prems(1) i by (rule place_Inr)
  have len1: "length mr1 = nat n"
    using Cons.prems(1) by (simp add: mr1_def)
  have ilen: "nat i < length mr"
    using irange Cons.prems(1) by simp
  from Cons.IH [OF len1] Cons.prems(2) obtain bs where
    run: "for_each (place n) mr1 ps = Inr bs" and len: "length bs = nat n"
    and ms: "mset (concat bs) = mset (concat mr1) + mset ps"
    and nth: "\<forall>j<nat n. bs ! j = mr1 ! j @ filter (\<lambda>p. word_index (fst p) n = Inr (int j)) ps"
    by auto
  have "for_each (place n) mr (p # ps) = Inr bs"
    using step run by simp
  moreover have "mset (concat bs) = mset (concat mr) + mset (p # ps)"
    using ms mset_concat_append_at [OF ilen, of p] by (simp add: mr1_def)
  moreover have "bs ! j = mr ! j @ filter (\<lambda>p. word_index (fst p) n = Inr (int j)) (p # ps)"
    if "j < nat n" for j
  proof (cases "j = nat i")
    case True
    then show ?thesis
      using nth that i irange ilen by (simp add: mr1_def)
  next
    case False
    then have "int j \<noteq> i" using irange by auto
    then show ?thesis
      using nth that i False by (simp add: mr1_def)
  qed
  ultimately show ?case using len by blast
qed

lemma place_loop_raises:
  assumes "0 < n"
  shows "length mr = nat n \<Longrightarrow> \<forall>p\<in>set ps. fst p \<noteq> [] \<Longrightarrow>
     \<exists>p\<in>set ps. \<not> decodable (fst p) \<Longrightarrow>
     for_each (place n) mr ps = Inl UnicodeDecodeError"
proof (induction ps arbitrary: mr)
  case Nil
  then show ?case by simp
next
  case (Cons p ps)
  show ?case
  proof (cases "decodable (fst p)")
    case False
    then show ?thesis
      by (simp add: place_def word_index_undecodable)
  next
    case True
    then obtain i where i: "word_index (fst p) n = Inr i"
      using word_index_decodable [OF assms] Cons.prems(2) by force
    have step: "place n mr p = Inr (mr[nat i := mr ! nat i @ [p]])"
      using assms Cons.prems(1) i by (rule place_Inr)
    have "for_each (place n) (mr[nat i := mr ! nat i @ [p]]) ps = Inl UnicodeDecodeError"
      using Cons.IH [of "mr[nat i := mr ! nat i @ [p]]"] Cons.prems True by auto
    then show ?thesis using step by simp
  qed
qed

lemma apply_map_flat:
  "apply_map corpus n = for_each (place n) (replicate (nat n) []) (emitted corpus)"
  by (simp add: apply_map_def emitted_def for_each_nested)

lemma apply_map_ok:
  assumes "0 < n" "\<forall>p\<in>set (emitted shard). decodable (fst p)"
  shows "\<exists>bs. apply_map shard n = Inr bs \<and> length bs = nat n
        \<and> mset (concat bs) = mset (emitted shard)
        \<and> (\<forall>j<nat n. bs ! j = filter (\<lambda>p. word_index (fst p) n = Inr (int j)) (emitted shard))"
proof -
  have "\<forall>p\<in>set (emitted shard). fst p \<noteq> [] \<and> decodable (fst p)"
    using assms(2) emitted_key_nonempty by blast
  from place_loop_ok [OF assms(1) _ this, of "replicate (nat n) []"]
  show ?thesis by (auto simp: apply_map_flat)
qed

lemma apply_map_raises:
  assumes "0 < n" "\<exists>p\<in>set (emitted shard). \<not> decodable (fst p)"
  shows "apply_map shard n = Inl UnicodeDecodeError"
proof -
  have "\<forall>p\<in>set (emitted shard). fst p \<noteq> []"
    using emitted_key_nonempty by blast
  from place_loop_raises [OF assms(1) _ this assms(2), of "replicate (nat n) []"]
  show ?thesis by (simp add: apply_map_flat)
qed

subsection \<open>Partitioning\<close>

lemma py_range_pos: "py_range n = map int [0..<nat n]"
  by (simp add: py_range_def)

lemma slice_bound_int: "slice_bound (int k) len = min k len"
  by (simp add: slice_bound_def)

lemma slice_chunk:
  assumes "(Suc i) * c \<le> length xs"
  shows "py_slice xs (int i * int c) ((int i + 1) * int c) = take c (drop (i * c) xs)"
proof -
  have le: "i * c \<le> length xs" using assms by simp
  have a: "int i * int c = int (i * c)" by simp
  have b: "(int i + 1) * int c = int (Suc i * c)" by (simp add: algebra_simps)
  have lo: "slice_bound (int i * int c) (length xs) = i * c"
    unfolding a slice_bound_int using le by simp
  have hi: "slice_bound ((int i + 1) * int c) (length xs) = Suc i * c"
    unfolding b slice_bound_int using assms by simp
  show ?thesis
    by (simp add: py_slice_def lo hi Let_def)
qed

lemma partitions_pos:
  assumes "0 < n"
  shows "partitions corpus n =
     Inr (map (\<lambda>i. take (chunk_of corpus n) (drop (i * chunk_of corpus n) corpus)) [0..<nat n])"
proof -
  let ?c = "chunk_of corpus n"
  have chunk: "int (length corpus) div n = int ?c"
    using assms by (simp add: chunk_of_def zdiv_int)
  have fits: "Suc i * ?c \<le> length corpus" if "i < nat n" for i
  proof -
    have "Suc i \<le> nat n" using that by simp
    then have "Suc i * ?c \<le> nat n * ?c" by (rule mult_le_mono1)
    also have "\<dots> \<le> length corpus" by (simp add: chunk_of_def)
    finally show ?thesis .
  qed
  have "map (\<lambda>i. py_slice corpus (i * int ?c) ((i + 1) * int ?c)) (py_range n)
      = map (\<lambda>i. take ?c (drop (i * ?c) corpus)) [0..<nat n]"
    unfolding py_range_pos map_map
    by (rule map_cong [OF refl]) (simp add: slice_chunk [OF fits])
  then show ?thesis
    using assms by (simp add: partitions_def py_floordiv_def chunk)
qed

lemma concat_chunks:
  "concat (map (\<lambda>i. take c (drop (i * c) xs)) [0..<m]) = take (m * c) xs"
proof (induction m)
  case 0
  show ?case by simp
next
  case (Suc m)
  have "take (m * c + c) xs = take (m * c) xs @ take c (drop (m * c) xs)"
    by (rule take_add)
  then show ?case using Suc by (simp add: add.commute)
qed

subsection \<open>From the mappers to the reducers\<close>

lemma ray_get_Inr: "ray_get (map Inr xs) = Inr xs"
  by (induction xs) auto

lemma ray_get_collect:
  "\<forall>x\<in>set xs. \<exists>v. f x = Inr v \<and> Q x v \<Longrightarrow>
   \<exists>vs. ray_get (map f xs) = Inr vs \<and> length vs = length xs
      \<and> (\<forall>i<length xs. Q (xs ! i) (vs ! i))"
proof (induction xs)
  case Nil
  show ?case by simp
next
  case (Cons x xs)
  obtain v where v: "f x = Inr v" "Q x v"
    using Cons.prems by auto
  obtain vs where vs: "ray_get (map f xs) = Inr vs" "length vs = length xs"
    "\<forall>i<length xs. Q (xs ! i) (vs ! i)"
    using Cons.IH Cons.prems by auto
  have "ray_get (map f (x # xs)) = Inr (v # vs)"
    using v(1) vs(1) by simp
  moreover have "Q ((x # xs) ! i) ((v # vs) ! i)" if "i < length (x # xs)" for i
    using that v(2) vs(3) by (cases i) auto
  ultimately show ?case using vs(2) by (intro exI [of _ "v # vs"]) simp
qed

lemma emitted_append: "emitted (xs @ ys) = emitted xs @ emitted ys"
  by (simp add: emitted_def)

lemma emitted_concat: "emitted (concat parts) = concat (map emitted parts)"
  by (induction parts) (simp_all add: emitted_append, simp add: emitted_def)

lemma concat_bucket_filter:
  "concat (map (\<lambda>data. bucket_filter n i (emitted data)) parts)
     = bucket_filter n i (emitted (concat parts))"
  by (induction parts) (simp_all add: emitted_append bucket_filter_def, simp add: emitted_def)

lemma apply_map_buckets:
  assumes "0 < n" "\<forall>p\<in>set (emitted shard). decodable (fst p)"
  shows "apply_map shard n = Inr (map (\<lambda>j. bucket_filter n j (emitted shard)) [0..<nat n])"
proof -
  obtain bs where bs: "apply_map shard n = Inr bs" "length bs = nat n"
    "\<forall>j<nat n. bs ! j = filter (\<lambda>p. word_index (fst p) n = Inr (int j)) (emitted shard)"
    using apply_map_ok [OF assms] by blast
  have "bs = map (\<lambda>j. bucket_filter n j (emitted shard)) [0..<nat n]"
    by (rule nth_equalityI) (simp_all add: bs bucket_filter_def)
  then show ?thesis using bs(1) by simp
qed

lemma ref_lists_ok:
  assumes "0 < n" "\<forall>p\<in>set (emitted (concat parts)). decodable (fst p)"
  shows "ref_lists parts n =
     map (\<lambda>data. map (\<lambda>j. Inr (bucket_filter n j (emitted data))) [0..<nat n]) parts"
  unfolding ref_lists_def
proof (rule map_cong [OF refl])
  fix data assume "data \<in> set parts"
  then have "\<forall>p\<in>set (emitted data). decodable (fst p)"
    using assms(2) by (auto simp: emitted_concat)
  then show "return_refs (nat n) (apply_map data n)
      = map (\<lambda>j. Inr (bucket_filter n j (emitted data))) [0..<nat n]"
    by (simp add: apply_map_buckets [OF assms(1)] return_refs_def)
qed

lemma remote_call_Inr: "remote_call f (map Inr xs) = f xs"
  by (simp add: remote_call_def ray_get_Inr)

lemma apply_reduce_flat: "apply_reduce results = for_each reduce_step [] (concat results)"
  using for_each_nested [of reduce_step "\<lambda>res. res" "[]" results]
  by (simp add: apply_reduce_def)

lemma reducer_tasks_ok:
  assumes "0 < n" "\<forall>p\<in>set (emitted (concat parts)). decodable (fst p)"
  shows "reducer_tasks (ref_lists parts n) n =
     map (\<lambda>i. for_each reduce_step [] (bucket_filter n i (emitted (concat parts)))) [0..<nat n]"
proof -
  have "remote_call apply_reduce
          (map (\<lambda>partition. partition ! i)
             (map (\<lambda>data. map (\<lambda>j. Inr (bucket_filter n j (emitted data))) [0..<nat n]) parts))
        = for_each reduce_step [] (bucket_filter n i (emitted (concat parts)))"
    if "i < nat n" for i
  proof -
    have pick: "map (\<lambda>partition. partition ! i)
             (map (\<lambda>data. map (\<lambda>j. Inr (bucket_filter n j (emitted data))) [0..<nat n]) parts)
          = map Inr (map (\<lambda>data. bucket_filter n i (emitted data)) parts)"
      using that by simp
    show ?thesis
      by (simp only: pick remote_call_Inr apply_reduce_flat concat_bucket_filter)
  qed
  then show ?thesis
    by (simp add: reducer_tasks_def ref_lists_ok [OF assms] py_range_pos)
qed

lemma reduce_from_empty:
  "\<exists>d. for_each reduce_step [] ps = Inr d \<and> distinct (map fst d)
      \<and> (\<forall>k. map_of d k = (if k \<in> fst ` set ps then Some (key_total k ps) else None))"
proof -
  obtain d where d: "for_each reduce_step [] ps = Inr d" "distinct (map fst d)"
    "\<forall>k. map_of d k =
       (if k \<in> fst ` set ps then Some (held [] k + key_total k ps) else map_of [] k)"
    using reduce_loop [of "[]" ps] by auto
  have "map_of d k = (if k \<in> fst ` set ps then Some (key_total k ps) else None)" for k
    using d(3) [rule_format, of k] by (simp add: held_def)
  then show ?thesis using d(1,2) by blast
qed

lemma concat_partitions:
  assumes "0 < n" "partitions corpus n = Inr parts"
  shows "concat parts = sharded corpus n" "length parts = nat n"
proof -
  have eq: "parts = map (\<lambda>i. take (chunk_of corpus n) (drop (i * chunk_of corpus n) corpus)) [0..<nat n]"
    using assms(2) by (simp add: partitions_pos [OF assms(1)])
  show "concat parts = sharded corpus n"
    unfolding eq sharded_def by (rule concat_chunks)
  show "length parts = nat n"
    unfolding eq by simp
qed

lemma try_map_Inr: "\<forall>x\<in>set xs. f x = Inr (g x) \<Longrightarrow> try_map f xs = Inr (map g xs)"
  by (induction xs) simp_all

lemma subscript_refs:
  assumes "1 < n" "i < nat n"
  shows "subscript (remote_returns (nat n) r) (int i) = Inr (return_refs (nat n) r ! i)"
proof -
  have "nat n \<noteq> 1" using assms(1) by simp
  moreover have "length (return_refs (nat n) r) = nat n"
    by (simp add: return_refs_def)
  moreover have "int i < n" "0 \<le> n"
    using assms by simp_all
  ultimately show ?thesis
    by (simp add: remote_returns_def Let_def)
qed

lemma reducer_refs_two:
  assumes "1 < n" "i < nat n"
  shows "reducer_refs (map_results parts n) (int i)
     = Inr (map (\<lambda>partition. partition ! i) (ref_lists parts n))"
proof -
  have "try_map (\<lambda>partition. subscript partition (int i))
          (map (\<lambda>data. remote_returns (nat n) (apply_map data n)) parts)
        = Inr (map (\<lambda>partition. return_refs (nat n) (apply_map partition n) ! i) parts)"
    by (induction parts) (simp_all add: subscript_refs [OF assms])
  then show ?thesis
    by (simp add: reducer_refs_def map_results_def ref_lists_def o_def)
qed

lemma outputs_two:
  assumes "1 < n"
  shows "outputs (map_results parts n) n = Inr (reducer_tasks (ref_lists parts n) n)"
  unfolding outputs_def reducer_tasks_def
proof (rule try_map_Inr, rule ballI)
  fix x assume "x \<in> set (py_range n)"
  then obtain i where i: "x = int i" "i < nat n"
    by (auto simp: py_range_def)
  show "(case reducer_refs (map_results parts n) x of
           Inl e \<Rightarrow> Inl e
         | Inr refs \<Rightarrow> Inr (remote_call apply_reduce refs))
      = Inr (remote_call apply_reduce (map (\<lambda>partition. partition ! nat x) (ref_lists parts n)))"
    by (simp add: i reducer_refs_two [OF assms i(2)])
qed

lemma reducer_results_two:
  assumes "1 < n" "partitions corpus n = Inr parts"
  shows "reducer_results corpus n = ray_get (reducer_tasks (ref_lists parts n) n)"
  by (simp add: reducer_results_def assms(2) outputs_two [OF assms(1)])

lemma reducer_results_ok:
  assumes "1 < n" "\<forall>p\<in>set (emitted (sharded corpus n)). decodable (fst p)"
  shows "\<exists>outs. reducer_results corpus n = Inr outs \<and> length outs = nat n
      \<and> (\<forall>i<nat n. distinct (map fst (outs ! i))
            \<and> (\<forall>k. map_of (outs ! i) k =
                 (if k \<in> fst ` set (bucket_filter n i (emitted (sharded corpus n)))
                  then Some (key_total k (bucket_filter n i (emitted (sharded corpus n))))
                  else None)))"
proof -
  have pos: "0 < n" using assms(1) by simp
  obtain parts where parts: "partitions corpus n = Inr parts"
    using pos by (simp add: partitions_pos)
  have cat: "concat parts = sharded corpus n"
    using pos parts by (rule concat_partitions)
  let ?E = "emitted (sharded corpus n)"
  let ?Q = "\<lambda>i d. distinct (map fst d)
      \<and> (\<forall>k. map_of d k = (if k \<in> fst ` set (bucket_filter n i ?E)
                             then Some (key_total k (bucket_filter n i ?E)) else None))"
  have "\<forall>i\<in>set [0..<nat n]. \<exists>d. for_each reduce_step [] (bucket_filter n i ?E) = Inr d \<and> ?Q i d"
    using reduce_from_empty by blast
  from ray_get_collect [of "[0..<nat n]" "\<lambda>i. for_each reduce_step [] (bucket_filter n i ?E)" ?Q, OF this]
  obtain outs where outs:
    "ray_get (map (\<lambda>i. for_each reduce_step [] (bucket_filter n i ?E)) [0..<nat n]) = Inr outs"
    "length outs = nat n" "\<forall>i<nat n. ?Q i (outs ! i)"
    by auto
  have "reducer_results corpus n = Inr outs"
    using outs(1) assms(2)
    by (simp add: reducer_results_two [OF assms(1) parts] reducer_tasks_ok [OF pos] cat)
  then show ?thesis using outs(2,3) by blast
qed

subsection \<open>Merging, and a failing mapper\<close>

lemma merge_lookup:
  "map_of (fold (\<lambda>kv c. dict_setitem (fst kv) (snd kv) c) xs c0) k =
     (case map_of (rev xs) k of None \<Rightarrow> map_of c0 k | Some v \<Rightarrow> Some v)"
proof (induction xs arbitrary: c0)
  case Nil
  show ?case by simp
next
  case (Cons x xs)
  show ?case
    by (simp add: Cons.IH map_of_dict_setitem map_add_def split: option.splits)
qed

lemma merge_distinct:
  "distinct (map fst c0) \<Longrightarrow>
   distinct (map fst (fold (\<lambda>kv c. dict_setitem (fst kv) (snd kv) c) xs c0))"
  by (induction xs arbitrary: c0) (simp_all add: distinct_dict_setitem)

lemma counts_distinct: "distinct (map fst (counts outs))"
  by (simp add: counts_def merge_distinct)

lemma in_concat_nth: "x \<in> set (concat xss) \<longleftrightarrow> (\<exists>j<length xss. x \<in> set (xss ! j))"
proof
  assume "x \<in> set (concat xss)"
  then obtain ys where "ys \<in> set xss" "x \<in> set ys" by auto
  then show "\<exists>j<length xss. x \<in> set (xss ! j)"
    unfolding in_set_conv_nth [of ys xss] by blast
next
  assume "\<exists>j<length xss. x \<in> set (xss ! j)"
  then obtain j where "j < length xss" "x \<in> set (xss ! j)" by blast
  then show "x \<in> set (concat xss)"
    using nth_mem [of j xss] by auto
qed

lemma ray_get_all_raise: "xs \<noteq> [] \<Longrightarrow> ray_get (map (\<lambda>i. Inl e) xs) = Inl e"
  by (cases xs) simp_all

lemma counts_lookup:
  assumes "\<forall>i<length outs. \<forall>v. (k, v) \<in> set (outs ! i) \<longrightarrow> v = c"
  shows "map_of (counts outs) k =
     (if \<exists>i<length outs. k \<in> fst ` set (outs ! i) then Some c else None)"
proof -
  have look: "map_of (counts outs) k = map_of (rev (concat outs)) k"
    by (simp add: counts_def merge_lookup split: option.splits)
  show ?thesis
  proof (cases "\<exists>i<length outs. k \<in> fst ` set (outs ! i)")
    case True
    then obtain i where "i < length outs" "k \<in> fst ` set (outs ! i)"
      by blast
    then obtain v where i: "i < length outs" "(k, v) \<in> set (outs ! i)"
      by auto
    then have "(k, v) \<in> set (concat outs)"
      unfolding in_concat_nth by blast
    then have "(k, v) \<in> set (rev (concat outs))"
      by simp
    then have "fst (k, v) \<in> fst ` set (rev (concat outs))"
      by (rule imageI)
    then have "k \<in> fst ` set (rev (concat outs))"
      by simp
    then have "map_of (rev (concat outs)) k \<noteq> None"
      by (simp only: map_of_eq_None_iff not_not)
    then obtain v' where v': "map_of (rev (concat outs)) k = Some v'"
      by blast
    then have "(k, v') \<in> set (rev (concat outs))"
      by (rule map_of_SomeD)
    then have "(k, v') \<in> set (concat outs)"
      by simp
    then obtain j where "j < length outs" "(k, v') \<in> set (outs ! j)"
      unfolding in_concat_nth by blast
    then have "v' = c" using assms by blast
    then show ?thesis using True look v' by simp
  next
    case False
    have "k \<notin> fst ` set (rev (concat outs))"
    proof
      assume "k \<in> fst ` set (rev (concat outs))"
      then obtain p where "p \<in> set (rev (concat outs))" "k = fst p" by blast
      then have "(k, snd p) \<in> set (concat outs)" by simp
      then obtain v where "(k, v) \<in> set (concat outs)" by blast
      then obtain j where "j < length outs" "(k, v) \<in> set (outs ! j)"
        unfolding in_concat_nth by blast
      then have "k \<in> fst ` set (outs ! j)"
        by (intro image_eqI [of _ _ "(k, v)"]) simp_all
      then show False using False \<open>j < length outs\<close> by blast
    qed
    then have "map_of (rev (concat outs)) k = None"
      by (simp add: map_of_eq_None_iff)
    then show ?thesis using False look by simp
  qed
qed

lemma ray_get_raises:
  "Inl e \<in> set rs \<Longrightarrow> \<forall>e'. Inl e' \<in> set rs \<longrightarrow> e' = e \<Longrightarrow> ray_get rs = Inl e"
proof (induction rs)
  case Nil
  then show ?case by simp
next
  case (Cons r rs)
  show ?case
  proof (cases r)
    case (Inl e')
    then have "e' = e" using Cons.prems(2) by simp
    then show ?thesis using Inl by simp
  next
    case (Inr v)
    have mem: "Inl e \<in> set rs"
      using Cons.prems(1) Inr by simp
    have only: "\<forall>e'. Inl e' \<in> set rs \<longrightarrow> e' = e"
      using Cons.prems(2) by simp
    have "ray_get rs = Inl e"
      using mem only by (rule Cons.IH)
    then show ?thesis using Inr by simp
  qed
qed

lemma apply_map_cases:
  assumes "0 < n"
  shows "apply_map shard n = Inl UnicodeDecodeError
       \<or> (\<exists>bs. apply_map shard n = Inr bs \<and> length bs = nat n)"
proof (cases "\<forall>p\<in>set (emitted shard). decodable (fst p)")
  case True
  then show ?thesis using apply_map_ok [OF assms] by blast
next
  case False
  then show ?thesis using apply_map_raises [OF assms] by blast
qed

lemma return_refs_nth:
  "i < n \<Longrightarrow> return_refs n r ! i =
     (case r of Inl e \<Rightarrow> Inl e
      | Inr xs \<Rightarrow> if length xs = n then Inr (xs ! i) else Inl ValueError)"
  by (cases r) (simp_all add: return_refs_def)

lemma mapper_ref_error:
  assumes "0 < n" "i < nat n" "return_refs (nat n) (apply_map data n) ! i = Inl e'"
  shows "e' = UnicodeDecodeError"
proof -
  consider "apply_map data n = Inl UnicodeDecodeError"
    | bs where "apply_map data n = Inr bs" "length bs = nat n"
    using apply_map_cases [OF assms(1), of data] by blast
  then show ?thesis
  proof cases
    case 1
    then show ?thesis using assms(3) by (simp add: return_refs_nth [OF assms(2)])
  next
    case 2
    then show ?thesis using assms(3) by (simp add: return_refs_nth [OF assms(2)])
  qed
qed

lemma reducer_args_raise:
  assumes "0 < n" "bad \<in> set parts" "\<exists>p\<in>set (emitted bad). \<not> decodable (fst p)"
    "i < nat n"
  shows "Inl UnicodeDecodeError \<in> set (map (\<lambda>partition. partition ! i) (ref_lists parts n))"
    and "\<forall>e'. Inl e' \<in> set (map (\<lambda>partition. partition ! i) (ref_lists parts n))
           \<longrightarrow> e' = UnicodeDecodeError"
proof -
  let ?mres = "ref_lists parts n"
  have bad_raises: "apply_map bad n = Inl UnicodeDecodeError"
    using assms(1,3) by (rule apply_map_raises)
  have "return_refs (nat n) (apply_map bad n) ! i = Inl UnicodeDecodeError"
    by (simp add: bad_raises return_refs_nth [OF assms(4)])
  moreover have "return_refs (nat n) (apply_map bad n) \<in> set ?mres"
    unfolding ref_lists_def using assms(2) by (simp only: set_map) (rule imageI)
  ultimately show "Inl UnicodeDecodeError \<in> set (map (\<lambda>partition. partition ! i) ?mres)"
    by (simp only: set_map) (rule image_eqI [of _ _ "return_refs (nat n) (apply_map bad n)"], simp_all)
  show "\<forall>e'. Inl e' \<in> set (map (\<lambda>partition. partition ! i) ?mres) \<longrightarrow> e' = UnicodeDecodeError"
  proof (intro allI impI)
    fix e' assume "Inl e' \<in> set (map (\<lambda>partition. partition ! i) ?mres)"
    then obtain data where data: "return_refs (nat n) (apply_map data n) ! i = Inl e'"
      unfolding ref_lists_def map_map set_map by (auto simp: o_def)
    show "e' = UnicodeDecodeError"
      using assms(1,4) data by (rule mapper_ref_error)
  qed
qed

lemma reducer_results_raises:
  assumes two: "1 < n" and "\<exists>p\<in>set (emitted (sharded corpus n)). \<not> decodable (fst p)"
  shows "reducer_results corpus n = Inl UnicodeDecodeError"
proof -
  have pos: "0 < n" using two by simp
  obtain parts where parts: "partitions corpus n = Inr parts"
    using pos by (simp add: partitions_pos)
  have cat: "concat parts = sharded corpus n"
    using pos parts by (rule concat_partitions)
  obtain bad where bad: "bad \<in> set parts" "\<exists>p\<in>set (emitted bad). \<not> decodable (fst p)"
    using assms(2) by (auto simp: cat [symmetric] emitted_concat)
  let ?mres = "ref_lists parts n"
  have arg: "ray_get (map (\<lambda>partition. partition ! i) ?mres) = Inl UnicodeDecodeError"
    if "i < nat n" for i
    using reducer_args_raise [OF pos bad that] by (rule ray_get_raises)
  have each: "remote_call apply_reduce (map (\<lambda>partition. partition ! nat i) ?mres)
      = Inl UnicodeDecodeError" if "i \<in> set (py_range n)" for i
  proof -
    have "nat i < nat n" using that by (auto simp: py_range_pos)
    then show ?thesis by (simp add: remote_call_def arg)
  qed
  have out: "reducer_tasks ?mres n = map (\<lambda>i. Inl UnicodeDecodeError) (py_range n)"
    unfolding reducer_tasks_def by (rule map_cong [OF refl]) (rule each)
  have "py_range n \<noteq> []"
    using pos by (simp add: py_range_pos)
  then have "ray_get (reducer_tasks ?mres n) = Inl UnicodeDecodeError"
    unfolding out by (rule ray_get_all_raise)
  then show ?thesis
    by (simp add: reducer_results_two [OF two parts])
qed

lemma key_total_bucket:
  assumes "word_index k n = Inr (int i)"
  shows "key_total k (bucket_filter n i ps) = key_total k ps"
proof -
  have "filter (\<lambda>p. fst p = k) (bucket_filter n i ps) = filter (\<lambda>p. fst p = k) ps"
    unfolding bucket_filter_def filter_filter
    by (rule filter_cong [OF refl]) (use assms in auto)
  then show ?thesis by (simp add: key_total_def)
qed

lemma keys_bucket_filter:
  "k \<in> fst ` set (bucket_filter n i ps) \<longleftrightarrow> k \<in> fst ` set ps \<and> word_index k n = Inr (int i)"
  by (auto simp: bucket_filter_def)

lemma key_total_ones:
  "\<forall>p\<in>set ps. snd p = 1 \<Longrightarrow> key_total k ps = int (count_list (map fst ps) k)"
  by (induction ps) (auto simp: key_total_Cons key_total_def)

lemma all_words_emitted: "all_words docs = map fst (emitted docs)"
  by (simp add: all_words_def emitted_def map_concat o_def)

lemma emitted_value: "p \<in> set (emitted docs) \<Longrightarrow> snd p = 1"
  by (auto simp: emitted_def dest: map_function_value)

lemma key_total_emitted: "key_total k (emitted docs) = int (count_list (all_words docs) k)"
  by (simp add: all_words_emitted key_total_ones emitted_value)

lemma merged_counts:
  assumes pos: "0 < n"
    and dec: "\<forall>p\<in>set (emitted docs). decodable (fst p)"
    and len: "length outs = nat n"
    and dist: "\<And>i. i < nat n \<Longrightarrow> distinct (map fst (outs ! i))"
    and look: "\<And>i k. i < nat n \<Longrightarrow> map_of (outs ! i) k =
                 (if k \<in> fst ` set (bucket_filter n i (emitted docs))
                  then Some (key_total k (bucket_filter n i (emitted docs))) else None)"
  shows "map_of (counts outs) k = naive_word_count docs k"
proof -
  let ?E = "emitted docs"
  have same: "\<forall>i<length outs. \<forall>v. (k, v) \<in> set (outs ! i) \<longrightarrow> v = key_total k ?E"
  proof (intro allI impI)
    fix i v assume i: "i < length outs" and "(k, v) \<in> set (outs ! i)"
    then have "map_of (outs ! i) k = Some v"
      using dist [of i] len by simp
    then have "k \<in> fst ` set (bucket_filter n i ?E)" "v = key_total k (bucket_filter n i ?E)"
      using look [of i k] i len by (auto split: if_splits)
    then show "v = key_total k ?E"
      by (simp add: keys_bucket_filter key_total_bucket)
  qed
  have ex: "(\<exists>i<length outs. k \<in> fst ` set (outs ! i)) \<longleftrightarrow> k \<in> fst ` set ?E"
  proof
    assume "\<exists>i<length outs. k \<in> fst ` set (outs ! i)"
    then obtain i where i: "i < nat n" "k \<in> fst ` set (outs ! i)"
      using len by auto
    then have "map_of (outs ! i) k \<noteq> None"
      by (simp add: map_of_eq_None_iff)
    then show "k \<in> fst ` set ?E"
      using look [OF i(1), of k] by (auto simp: keys_bucket_filter split: if_splits)
  next
    assume k: "k \<in> fst ` set ?E"
    then obtain p where p: "p \<in> set ?E" "fst p = k" by auto
    then have "k \<noteq> []" "decodable k"
      using emitted_key_nonempty [OF p(1)] dec by auto
    then obtain j where j: "word_index k n = Inr j"
      using word_index_decodable [OF pos] by blast
    then have jr: "0 \<le> j" "j < n"
      using word_index_range [OF pos] by auto
    then have "map_of (outs ! nat j) k \<noteq> None"
      using look [of "nat j" k] k j by (simp add: keys_bucket_filter)
    then have "k \<in> fst ` set (outs ! nat j)"
      by (simp add: map_of_eq_None_iff)
    then show "\<exists>i<length outs. k \<in> fst ` set (outs ! i)"
      using jr len by (intro exI [of _ "nat j"]) simp
  qed
  have kw: "k \<in> set (all_words docs) \<longleftrightarrow> k \<in> fst ` set ?E"
    by (simp add: all_words_emitted)
  show ?thesis
    unfolding counts_lookup [OF same] ex naive_word_count_def kw
    by (simp add: key_total_emitted)
qed

lemma run_job_sharded:
  assumes two: "1 < n" and words: "\<forall>w\<in>set (all_words (sharded corpus n)). decodable w"
  shows "\<exists>c. run_job corpus n = Inr c \<and> distinct (map fst c)
      \<and> (\<forall>k. map_of c k = naive_word_count (sharded corpus n) k)"
proof -
  let ?E = "emitted (sharded corpus n)"
  have pos: "0 < n" using two by simp
  have dec: "\<forall>p\<in>set ?E. decodable (fst p)"
    using words by (simp add: all_words_emitted)
  obtain outs where outs: "reducer_results corpus n = Inr outs" "length outs = nat n"
    and dist: "\<And>i. i < nat n \<Longrightarrow> distinct (map fst (outs ! i))"
    and look: "\<And>i k. i < nat n \<Longrightarrow> map_of (outs ! i) k =
                 (if k \<in> fst ` set (bucket_filter n i ?E)
                  then Some (key_total k (bucket_filter n i ?E)) else None)"
    using reducer_results_ok [OF two dec] by blast
  have run: "run_job corpus n = Inr (counts outs)"
    by (simp add: run_job_def outs(1))
  have "map_of (counts outs) k = naive_word_count (sharded corpus n) k" for k
    using pos dec outs(2) dist look by (rule merged_counts)
  then show ?thesis using run counts_distinct by blast
qed

subsection \<open>What a finished job holds\<close>

lemma reducer_results_Inr:
  assumes "1 < n" "reducer_results corpus n = Inr outs"
  shows "length outs = nat n"
    and "\<forall>p\<in>set (emitted (sharded corpus n)). decodable (fst p)"
    and "\<And>i. i < nat n \<Longrightarrow> distinct (map fst (outs ! i))"
    and "\<And>i k. i < nat n \<Longrightarrow> map_of (outs ! i) k =
           (if k \<in> fst ` set (emitted (sharded corpus n)) \<and> word_index k n = Inr (int i)
            then Some (key_total k (emitted (sharded corpus n))) else None)"
proof -
  show dec: "\<forall>p\<in>set (emitted (sharded corpus n)). decodable (fst p)"
  proof (rule ccontr)
    assume "\<not> ?thesis"
    then have "reducer_results corpus n = Inl UnicodeDecodeError"
      using reducer_results_raises [OF assms(1)] by blast
    then show False using assms(2) by simp
  qed
  from reducer_results_ok [OF assms(1) dec] assms(2)
  have len: "length outs = nat n"
    and props: "\<forall>i<nat n. distinct (map fst (outs ! i))
            \<and> (\<forall>k. map_of (outs ! i) k =
                 (if k \<in> fst ` set (bucket_filter n i (emitted (sharded corpus n)))
                  then Some (key_total k (bucket_filter n i (emitted (sharded corpus n))))
                  else None))"
    by auto
  show "length outs = nat n" by (rule len)
  show "distinct (map fst (outs ! i))" if "i < nat n" for i
    using props that by blast
  show "map_of (outs ! i) k =
           (if k \<in> fst ` set (emitted (sharded corpus n)) \<and> word_index k n = Inr (int i)
            then Some (key_total k (emitted (sharded corpus n))) else None)"
    if "i < nat n" for i k
  proof -
    have "map_of (outs ! i) k =
        (if k \<in> fst ` set (bucket_filter n i (emitted (sharded corpus n)))
         then Some (key_total k (bucket_filter n i (emitted (sharded corpus n)))) else None)"
      using props that by blast
    then show ?thesis
      by (simp add: keys_bucket_filter key_total_bucket)
  qed
qed

lemma reducer_key_iff:
  assumes "1 < n" "reducer_results corpus n = Inr outs" "i < nat n"
  shows "k \<in> fst ` set (outs ! i) \<longleftrightarrow>
     k \<in> fst ` set (emitted (sharded corpus n)) \<and> word_index k n = Inr (int i)"
proof -
  have "k \<in> fst ` set (outs ! i) \<longleftrightarrow> map_of (outs ! i) k \<noteq> None"
    by (simp add: map_of_eq_None_iff)
  then show ?thesis
    by (simp add: reducer_results_Inr(4) [OF assms])
qed

lemma reducer_results_nonpos:
  assumes "n \<le> 0" "reducer_results corpus n = Inr outs"
  shows "outs = []"
proof -
  have "n \<noteq> 0" using assms(2)
    by (auto simp: reducer_results_def partitions_def py_floordiv_def)
  then have "n < 0" using assms(1) by simp
  then show ?thesis using assms(2)
    by (simp add: reducer_results_def partitions_def py_floordiv_def py_range_def
        map_results_def outputs_def)
qed

lemma reducer_results_one: "reducer_results corpus 1 = Inl TypeError"
proof -
  have "partitions corpus 1 = Inr [take (chunk_of corpus 1) (drop (0 * chunk_of corpus 1) corpus)]"
    using partitions_pos [of 1 corpus] by simp
  then show ?thesis
    by (simp add: reducer_results_def map_results_def outputs_def py_range_def
        reducer_refs_def remote_returns_def)
qed

lemma run_job_one: "run_job corpus 1 = Inl TypeError"
  by (simp add: run_job_def reducer_results_one)

lemma reducer_results_Inr_two:
  assumes "reducer_results corpus n = Inr outs" "outs \<noteq> []"
  shows "1 < n"
proof (rule ccontr)
  assume "\<not> 1 < n"
  then consider "n \<le> 0" | "n = 1" by linarith
  then show False
  proof cases
    case 1
    then show False using reducer_results_nonpos [OF _ assms(1)] assms(2) by simp
  next
    case 2
    then show False using assms(1) by (simp add: reducer_results_one)
  qed
qed

lemma sharded_all:
  assumes "0 < n" "int (length corpus) mod n = 0"
  shows "sharded corpus n = corpus"
proof -
  have "int (length corpus mod nat n) = 0"
    using assms by (simp add: zmod_int)
  then have "nat n * (length corpus div nat n) = length corpus"
    using mult_div_mod_eq [of "nat n" "length corpus"] by simp
  then show ?thesis by (simp add: sharded_def chunk_of_def)
qed

lemma partitions_sharded:
  assumes "0 < n"
  shows "partitions (sharded corpus n) n = partitions corpus n"
proof -
  let ?c = "chunk_of corpus n"
  have total: "nat n * ?c \<le> length corpus"
    by (simp add: chunk_of_def)
  have len: "length (sharded corpus n) = nat n * ?c"
    using total by (simp add: sharded_def)
  have c: "chunk_of (sharded corpus n) n = ?c"
    using assms by (simp add: chunk_of_def [of "sharded corpus n"] len)
  have "take ?c (drop (i * ?c) (sharded corpus n)) = take ?c (drop (i * ?c) corpus)"
    if "i < nat n" for i
  proof -
    have "Suc i \<le> nat n" using that by simp
    then have "Suc i * ?c \<le> nat n * ?c" by (rule mult_le_mono1)
    then have "?c \<le> nat n * ?c - i * ?c" by simp
    then show ?thesis
      by (simp add: sharded_def drop_take min_def)
  qed
  then have "map (\<lambda>i. take ?c (drop (i * ?c) (sharded corpus n))) [0..<nat n]
      = map (\<lambda>i. take ?c (drop (i * ?c) corpus)) [0..<nat n]"
    by simp
  then show ?thesis
    by (simp add: partitions_pos [OF assms] c)
qed

lemma run_job_sharded_only:
  assumes "0 < n"
  shows "run_job (sharded corpus n) n = run_job corpus n"
  by (simp add: run_job_def reducer_results_def partitions_sharded [OF assms])

subsection \<open>Partitioner, mapper and reducer\<close>

text \<open>
  Claim C7. For every sequence of input buckets, \<open>apply_reduce\<close> returns (it raises
  nothing), and the dictionary it returns maps every key that occurs in some input pair
  to the sum of the values of all pairs with that key, over all the buckets; no other
  key is present, and no key is present twice.
\<close>
theorem apply_reduce_sums:
  "\<exists>d. apply_reduce results = Inr d \<and> distinct (map fst d)
     \<and> (\<forall>k. map_of d k =
           (if k \<in> fst ` set (concat results)
            then Some (key_total k (concat results)) else None))"
  unfolding apply_reduce_flat by (rule reduce_from_empty)

theorem apply_reduce_sums_witness:
  "\<exists>d. apply_reduce [[(''to'', 1), (''be'', 1)], [], [(''to'', 4)]] = Inr d
     \<and> distinct (map fst d) \<and> map_of d ''to'' = Some 5 \<and> map_of d ''be'' = Some 1
     \<and> map_of d ''or'' = None"
proof -
  obtain d where d: "apply_reduce [[(''to'', 1), (''be'', 1)], [], [(''to'', 4)]] = Inr d"
    "distinct (map fst d)"
    "\<forall>k. map_of d k =
       (if k \<in> fst ` set (concat [[(''to'', 1), (''be'', 1)], [], [(''to'', 4::int)]])
        then Some (key_total k (concat [[(''to'', 1), (''be'', 1)], [], [(''to'', 4)]]))
        else None)"
    using apply_reduce_sums [of "[[(''to'', 1), (''be'', 1)], [], [(''to'', 4)]]"] by blast
  have "map_of d ''to'' = Some 5" "map_of d ''be'' = Some 1" "map_of d ''or'' = None"
    using d(3) by (simp_all add: key_total_def)
  then show ?thesis using d(1,2) by blast
qed

text \<open>
  Claim C9. For every document list \<open>D\<close> and every partition count \<open>p \<ge> 1\<close>, the
  partition step returns exactly \<open>p\<close> shards; shard \<open>i\<close> is the slice of
  \<open>len(D) div p\<close> documents that starts at position \<open>i * (len(D) div p)\<close>, so the
  shards are contiguous and taken from the front of \<open>D\<close>. The documents after them,
  \<open>len(D) mod p\<close> in number, are in no shard, no error is raised for them, and the job
  on \<open>D\<close> is the job on the documents of the shards alone.
\<close>
theorem partitions_shards:
  assumes "1 \<le> p"
  shows "\<exists>shards. partitions D p = Inr shards \<and> length shards = nat p
     \<and> (\<forall>i<nat p. shards ! i = take (chunk_of D p) (drop (i * chunk_of D p) D)
                  \<and> length (shards ! i) = length D div nat p)
     \<and> D = concat shards @ drop (nat p * chunk_of D p) D
     \<and> length (drop (nat p * chunk_of D p) D) = length D mod nat p
     \<and> run_job (concat shards) p = run_job D p"
proof -
  let ?c = "chunk_of D p"
  let ?shards = "map (\<lambda>i. take ?c (drop (i * ?c) D)) [0..<nat p]"
  have pos: "0 < p" using assms by simp
  have eq: "partitions D p = Inr ?shards"
    using pos by (rule partitions_pos)
  have len: "length (?shards ! i) = length D div nat p" if "i < nat p" for i
  proof -
    have "Suc i \<le> nat p" using that by simp
    then have "Suc i * ?c \<le> nat p * ?c" by (rule mult_le_mono1)
    also have "\<dots> \<le> length D" by (simp add: chunk_of_def)
    finally have "?c \<le> length D - i * ?c" by simp
    then show ?thesis using that by (simp add: chunk_of_def)
  qed
  have cat: "concat ?shards = take (nat p * ?c) D"
    by (rule concat_chunks)
  have rest: "length (drop (nat p * ?c) D) = length D mod nat p"
    by (simp add: chunk_of_def minus_mult_div_eq_mod)
  have job: "run_job (concat ?shards) p = run_job D p"
    unfolding cat using run_job_sharded_only [OF pos, of D] by (simp add: sharded_def)
  show ?thesis
    using eq len rest job by (intro exI [of _ ?shards]) (simp add: cat)
qed

theorem partitions_shards_witness:
  "(1::int) \<le> 2 \<and> partitions [''a'', ''b'', ''c'', ''d'', ''e''] 2 = Inr [[''a'', ''b''], [''c'', ''d'']]
   \<and> length (drop (nat 2 * chunk_of [''a'', ''b'', ''c'', ''d'', ''e''] 2) [''a'', ''b'', ''c'', ''d'', ''e'']) = 1
   \<and> run_job [''a'', ''b'', ''c'', ''d''] 2 = run_job [''a'', ''b'', ''c'', ''d'', ''e''] 2"
proof -
  have h: "(1::int) \<le> 2" by simp
  obtain shards where s: "partitions [''a'', ''b'', ''c'', ''d'', ''e''] 2 = Inr shards"
    "length shards = nat 2"
    "\<forall>i<nat 2. shards ! i = take (chunk_of [''a'', ''b'', ''c'', ''d'', ''e''] 2)
           (drop (i * chunk_of [''a'', ''b'', ''c'', ''d'', ''e''] 2) [''a'', ''b'', ''c'', ''d'', ''e''])
         \<and> length (shards ! i) = length [''a'', ''b'', ''c'', ''d'', ''e''] div nat 2"
    "length (drop (nat 2 * chunk_of [''a'', ''b'', ''c'', ''d'', ''e''] 2) [''a'', ''b'', ''c'', ''d'', ''e''])
       = length [''a'', ''b'', ''c'', ''d'', ''e''] mod nat 2"
    "run_job (concat shards) 2 = run_job [''a'', ''b'', ''c'', ''d'', ''e''] 2"
    using partitions_shards [OF h, of "[''a'', ''b'', ''c'', ''d'', ''e'']"] by blast
  have c: "chunk_of [''a'', ''b'', ''c'', ''d'', ''e''] 2 = 2"
    by (simp add: chunk_of_def)
  have "shards ! 0 = [''a'', ''b'']" "shards ! 1 = [''c'', ''d'']"
    using s(3) by (simp_all add: c)
  moreover have "shards = [shards ! 0, shards ! 1]"
    using s(2) by (intro nth_equalityI) (auto simp: less_Suc_eq numeral_2_eq_2)
  ultimately have "shards = [[''a'', ''b''], [''c'', ''d'']]" by simp
  then show ?thesis using s(1,4,5) by simp
qed

text \<open>
  Claim C6 says that partitioning fails with InvalidArgument for a partition count
  \<open>n \<le> 0\<close> and for an empty document sequence with \<open>n > 0\<close>. The cell checks
  neither argument: an empty corpus with \<open>n = 1\<close> gives one empty shard, and
  \<open>n = -1\<close> gives an empty list of shards, both without an error.
\<close>
theorem partitions_accepts_bad_arguments:
  "partitions [] 1 = Inr [[]] \<and> partitions [''a''] (- 1) = Inr []"
  by (simp add: partitions_def py_floordiv_def py_range_def py_slice_def slice_bound_def)

text \<open>
  Claim C6, amended. The partition step raises exactly for \<open>n = 0\<close>, with the
  ZeroDivisionError of \<^verbatim>\<open>len(corpus) // num_partitions\<close>, and then no shard is produced.
  For \<open>n < 0\<close> it returns an empty list of shards and no error; for \<open>n > 0\<close> it
  returns \<open>n\<close> shards and no error, whatever the documents, and for an empty document
  sequence these are \<open>n\<close> empty shards.
\<close>
theorem partitions_raises_iff:
  "((\<exists>e. partitions D n = Inl e) \<longleftrightarrow> n = 0)
   \<and> (n = 0 \<longrightarrow> partitions D n = Inl ZeroDivisionError)
   \<and> (n < 0 \<longrightarrow> partitions D n = Inr [])
   \<and> (0 < n \<longrightarrow> (\<exists>shards. partitions D n = Inr shards \<and> length shards = nat n))
   \<and> (0 < n \<longrightarrow> partitions [] n = Inr (replicate (nat n) []))"
proof (intro conjI impI)
  show "(\<exists>e. partitions D n = Inl e) \<longleftrightarrow> n = 0"
    by (auto simp: partitions_def py_floordiv_def)
next
  assume "n = 0"
  then show "partitions D n = Inl ZeroDivisionError"
    by (simp add: partitions_def py_floordiv_def)
next
  assume "0 < n"
  then show "\<exists>shards. partitions D n = Inr shards \<and> length shards = nat n"
    by (simp add: partitions_pos)
next
  assume "n < 0"
  then show "partitions D n = Inr []"
    by (simp add: partitions_def py_floordiv_def py_range_def)
next
  assume "0 < n"
  then have "partitions [] n = Inr (map (\<lambda>i. []) [0..<nat n])"
    by (simp add: partitions_pos)
  then show "partitions [] n = Inr (replicate (nat n) [])"
    by (simp add: map_replicate_const)
qed

theorem partitions_raises_iff_witness:
  "partitions [''a'', ''b''] 0 = Inl ZeroDivisionError
   \<and> partitions [''a'', ''b''] (- 3) = Inr []
   \<and> (\<exists>shards. partitions [''a'', ''b''] 2 = Inr shards \<and> length shards = 2)
   \<and> partitions [] 2 = Inr [[], []]"
  using partitions_raises_iff [of "[''a'', ''b'']" 0]
    partitions_raises_iff [of "[''a'', ''b'']" "- 3"]
    partitions_raises_iff [of "[''a'', ''b'']" 2]
    partitions_raises_iff [of "[]" 2]
  by (simp add: numeral_2_eq_2)

text \<open>
  Claim C8 says that the Mapper returns \<open>n\<close> buckets for every shard. The bucket
  index is computed from \<^verbatim>\<open>result[0].decode("utf-8")\<close>, which raises for a word that
  is not well-formed UTF-8: for the one-document shard holding the byte 0xFF the Mapper
  returns no buckets.
\<close>
theorem apply_map_undecodable:
  "apply_map [[CHR 0xFF]] 1 = Inl UnicodeDecodeError"
  by (simp add: apply_map_def map_function_def bytes_lower_def lower_byte_def byte_val_def
      bytes_split_def isspace_def place_def word_index_def first_letter_ord_def)

text \<open>
  Claim C8, amended. For every partition count \<open>n \<ge> 1\<close> and every shard whose words
  are all well-formed UTF-8, the Mapper returns exactly \<open>n\<close> buckets, the multiset of
  the pairs of all buckets together is the multiset of the pairs the map function emits
  over the shard's documents, and bucket \<open>j\<close> holds, in order, exactly the emitted
  pairs whose key has index \<open>j\<close>: every emitted pair is in exactly one bucket, none is
  duplicated and none is lost. For a shard with a word that is not well-formed UTF-8 the
  Mapper raises UnicodeDecodeError and returns no bucket.
\<close>
theorem apply_map_distributes:
  assumes "1 \<le> n"
  shows "((\<forall>w\<in>set (all_words shard). decodable w) \<longrightarrow>
           (\<exists>bs. apply_map shard n = Inr bs \<and> length bs = nat n
              \<and> mset (concat bs) = mset (emitted shard)
              \<and> (\<forall>j<nat n. bs ! j = bucket_filter n j (emitted shard))))
       \<and> (\<not> (\<forall>w\<in>set (all_words shard). decodable w) \<longrightarrow>
           apply_map shard n = Inl UnicodeDecodeError)"
proof (intro conjI impI)
  have pos: "0 < n" using assms by simp
  {
    assume "\<forall>w\<in>set (all_words shard). decodable w"
    then have dec: "\<forall>p\<in>set (emitted shard). decodable (fst p)"
      by (simp add: all_words_emitted)
    from apply_map_ok [OF pos dec]
    show "\<exists>bs. apply_map shard n = Inr bs \<and> length bs = nat n
              \<and> mset (concat bs) = mset (emitted shard)
              \<and> (\<forall>j<nat n. bs ! j = bucket_filter n j (emitted shard))"
      by (simp add: bucket_filter_def)
  next
    assume "\<not> (\<forall>w\<in>set (all_words shard). decodable w)"
    then have "\<exists>p\<in>set (emitted shard). \<not> decodable (fst p)"
      by (simp add: all_words_emitted)
    then show "apply_map shard n = Inl UnicodeDecodeError"
      using pos by (intro apply_map_raises)
  }
qed

subsection \<open>The whole job\<close>

lemmas bytes_eval = map_function_def bytes_lower_def lower_byte_def byte_val_def
  bytes_split_def isspace_def all_words_def emitted_def decodable_def is_cont_def

theorem apply_map_distributes_witness:
  "(1::int) \<le> 2
   \<and> list_all decodable (all_words [''To be'', ''or''])
   \<and> (\<exists>bs. apply_map [''To be'', ''or''] 2 = Inr bs \<and> length bs = 2
          \<and> mset (concat bs) = {#(''to'', 1), (''be'', 1), (''or'', 1)#})
   \<and> \<not> (\<forall>w\<in>set (all_words [''a'', [CHR 0xFF]]). decodable w)
   \<and> apply_map [''a'', [CHR 0xFF]] 2 = Inl UnicodeDecodeError"
proof -
  have h: "(1::int) \<le> 2" by simp
  have ok: "\<forall>w\<in>set (all_words [''To be'', ''or'']). decodable w"
    by (simp add: bytes_eval)
  have bad: "\<not> (\<forall>w\<in>set (all_words [''a'', [CHR 0xFF]]). decodable w)"
    by (simp add: bytes_eval)
  have em: "emitted [''To be'', ''or''] = [(''to'', 1), (''be'', 1), (''or'', 1)]"
    by code_simp
  have "\<exists>bs. apply_map [''To be'', ''or''] 2 = Inr bs \<and> length bs = 2
          \<and> mset (concat bs) = {#(''to'', 1), (''be'', 1), (''or'', 1)#}"
    using apply_map_distributes [OF h, of "[''To be'', ''or'']"] ok by (auto simp: em)
  moreover have "apply_map [''a'', [CHR 0xFF]] 2 = Inl UnicodeDecodeError"
    using apply_map_distributes [OF h, of "[''a'', [CHR 0xFF]]"] bad by blast
  ultimately show ?thesis using h ok bad by (simp add: list_all_iff)
qed

text \<open>
  Claim C3. The job on the single document \<^verbatim>\<open>b"to be or not to be"\<close> with two
  partitions should count \<open>to\<close> and \<open>be\<close> twice, \<open>or\<close> and \<open>not\<close> once. In the
  notebook \<^verbatim>\<open>chunk = 1 // 2 = 0\<close>, both shards are empty, the document reaches no
  mapper and the result is the empty dictionary, although the document has the word
  \<open>to\<close> twice.
\<close>
theorem to_be_or_not_to_be_dropped:
  "run_job [''to be or not to be''] 2 = Inr []
   \<and> naive_word_count [''to be or not to be''] ''to'' = Some 2"
  by code_simp

text \<open>
  Claim C1 says that the counts of the job equal the naive word count for every document
  set and every \<open>p \<ge> 1\<close>. Three inputs where they differ: a document that is the byte
  0xFF makes its mapper raise; of three documents with \<open>p = 2\<close> the third is in no
  shard and is not counted; and with \<open>p = 1\<close> the driver raises TypeError at
  \<^verbatim>\<open>partition[i]\<close>.
\<close>
theorem job_differs_from_naive_count:
  "run_job [[CHR 0xFF], ''a''] 2 = Inl UnicodeDecodeError
   \<and> naive_word_count [[CHR 0xFF], ''a''] [CHR 0xFF] = Some 1
   \<and> run_job [''a'', ''b'', ''c''] 2 = Inr [(''b'', 1), (''a'', 1)]
   \<and> naive_word_count [''a'', ''b'', ''c''] ''c'' = Some 1
   \<and> run_job [''a''] 1 = Inl TypeError
   \<and> naive_word_count [''a''] ''a'' = Some 1"
  by code_simp

text \<open>
  Claim C1, amended. For every partition count \<open>p \<ge> 2\<close> and every document list
  \<open>D\<close> whose length is a multiple of \<open>p\<close> and whose words are all well-formed UTF-8,
  the job (partition into \<open>p\<close> shards, map each shard, send bucket \<open>j\<close> of every
  mapper to reducer \<open>j\<close>, reduce, merge) returns a dictionary that equals the naive
  word count of \<open>D\<close>: every word of every document counted once, and no entry for any
  other word.
\<close>
theorem job_equals_naive_count:
  assumes "2 \<le> p" "int (length D) mod p = 0" "\<forall>w\<in>set (all_words D). decodable w"
  shows "\<exists>c. run_job D p = Inr c \<and> distinct (map fst c)
     \<and> (\<forall>w. map_of c w = naive_word_count D w)"
proof -
  have pos: "0 < p" and two: "1 < p" using assms(1) by simp_all
  have all: "sharded D p = D"
    using pos assms(2) by (rule sharded_all)
  show ?thesis
    using run_job_sharded [OF two, of D] assms(3) by (simp add: all)
qed

theorem job_equals_naive_count_witness:
  "(2::int) \<le> 2 \<and> int (length [''to be'', ''Be it'']) mod 2 = 0
   \<and> list_all decodable (all_words [''to be'', ''Be it''])
   \<and> (\<exists>c. run_job [''to be'', ''Be it''] 2 = Inr c
          \<and> map_of c ''be'' = Some 2 \<and> map_of c ''to'' = Some 1 \<and> map_of c ''Be'' = None)"
proof -
  have h1: "(2::int) \<le> 2" by simp
  have h2: "int (length [''to be'', ''Be it'']) mod 2 = 0" by simp
  have h3: "\<forall>w\<in>set (all_words [''to be'', ''Be it'']). decodable w"
    by (simp add: bytes_eval)
  have w: "all_words [''to be'', ''Be it''] = [''to'', ''be'', ''be'', ''it'']"
    by code_simp
  obtain c where c: "run_job [''to be'', ''Be it''] 2 = Inr c"
    "\<forall>w. map_of c w = naive_word_count [''to be'', ''Be it''] w"
    using job_equals_naive_count [OF h1 h2 h3] by blast
  have "map_of c ''be'' = Some 2" "map_of c ''to'' = Some 1" "map_of c ''Be'' = None"
    using c(2) by (simp_all add: naive_word_count_def w)
  then show ?thesis using h1 h2 h3 c(1) by (simp add: list_all_iff)
qed

text \<open>
  Claim C5. The job on an empty document list should raise nothing and return the
  empty dictionary for every partition count \<open>p \<ge> 1\<close>. With \<open>p = 1\<close> the mapper
  is submitted with \<^verbatim>\<open>num_returns=1\<close>, its result is a single reference, and the
  driver raises TypeError at \<^verbatim>\<open>partition[i]\<close>. For every \<open>p \<ge> 2\<close> the job returns
  the empty dictionary.
\<close>
theorem empty_corpus_single_partition:
  "run_job [] 1 = Inl TypeError \<and> (2 \<le> p \<longrightarrow> run_job [] p = Inr [])"
proof (intro conjI impI)
  show "run_job [] 1 = Inl TypeError" by (rule run_job_one)
next
  assume "2 \<le> p"
  then have two: "1 < p" by simp
  have "\<forall>w\<in>set (all_words (sharded [] p)). decodable w"
    by (simp add: sharded_def all_words_def)
  from run_job_sharded [OF two this]
  obtain c where c: "run_job [] p = Inr c" "\<forall>k. map_of c k = naive_word_count (sharded [] p) k"
    by blast
  have "map_of c k = None" for k
    using c(2) by (simp add: naive_word_count_def sharded_def all_words_def)
  then have "map_of c = Map.empty" by (simp add: fun_eq_iff)
  then have "c = []" by simp
  then show "run_job [] p = Inr []" using c(1) by simp
qed

theorem empty_corpus_single_partition_witness:
  "run_job [] 1 = Inl TypeError \<and> (2::int) \<le> 3 \<and> run_job [] 3 = Inr []"
  using empty_corpus_single_partition [of 3] by simp

lemma reducer_entry_value:
  assumes "1 < n" "reducer_results corpus n = Inr outs" "i < nat n" "(k, v) \<in> set (outs ! i)"
  shows "v = key_total k (emitted (sharded corpus n))"
proof -
  have "map_of (outs ! i) k = Some v"
    using reducer_results_Inr(3) [OF assms(1,2,3)] assms(4) by simp
  then show ?thesis
    using reducer_results_Inr(4) [OF assms(1,2,3), of k] by (simp split: if_splits)
qed




text \<open>
  Claim C10. In a finished job the results of two different reducers have no key in
  common, and the merged dictionary gives every key of a reducer the value that reducer
  computed: the dictionary union overwrites nothing.
\<close>
theorem reducer_keys_disjoint:
  assumes "reducer_results corpus n = Inr outs" "i < length outs" "j < length outs" "i \<noteq> j"
  shows "fst ` set (outs ! i) \<inter> fst ` set (outs ! j) = {}
     \<and> (\<forall>k\<in>fst ` set (outs ! i). map_of (counts outs) k = map_of (outs ! i) k)"
proof -
  have "outs \<noteq> []" using assms(2) by auto
  then have pos: "1 < n"
    using assms(1) by (intro reducer_results_Inr_two)
  have len: "length outs = nat n"
    using pos assms(1) by (rule reducer_results_Inr(1))
  let ?E = "emitted (sharded corpus n)"
  have disj: "fst ` set (outs ! i) \<inter> fst ` set (outs ! j) = {}"
  proof (rule ccontr)
    assume "\<not> ?thesis"
    then obtain k where "k \<in> fst ` set (outs ! i)" "k \<in> fst ` set (outs ! j)"
      by blast
    then have "word_index k n = Inr (int i)" "word_index k n = Inr (int j)"
      using reducer_key_iff [OF pos assms(1), of i k]
        reducer_key_iff [OF pos assms(1), of j k] assms(2,3) len by simp_all
    then show False using assms(4) by simp
  qed
  have keep: "map_of (counts outs) k = map_of (outs ! i) k" if k: "k \<in> fst ` set (outs ! i)" for k
  proof -
    have same: "\<forall>m<length outs. \<forall>v. (k, v) \<in> set (outs ! m) \<longrightarrow> v = key_total k ?E"
      using reducer_entry_value [OF pos assms(1)] len by simp
    have "map_of (counts outs) k = Some (key_total k ?E)"
      unfolding counts_lookup [OF same] using assms(2) k by auto
    moreover have "map_of (outs ! i) k = Some (key_total k ?E)"
      using reducer_results_Inr(4) [OF pos assms(1), of i k]
        reducer_key_iff [OF pos assms(1), of i k] assms(2) len k by simp
    ultimately show ?thesis by simp
  qed
  show ?thesis using disj keep by blast
qed

theorem reducer_keys_disjoint_witness:
  "reducer_results [''to be or'', ''Be it'', ''not''] 3 = Inr [[(''or'', 1), (''it'', 1)], [], [(''to'', 1), (''be'', 2), (''not'', 1)]]
   \<and> (0::nat) < 3 \<and> (2::nat) < 3 \<and> (0::nat) \<noteq> 2
   \<and> fst ` set [(''or'', 1), (''it'', 1::int)] \<inter> fst ` set [(''to'', 1), (''be'', 2), (''not'', 1::int)] = {}
   \<and> map_of (counts [[(''or'', 1), (''it'', 1)], [], [(''to'', 1), (''be'', 2), (''not'', 1)]]) ''or'' = Some 1"
proof -
  have h: "reducer_results [''to be or'', ''Be it'', ''not''] 3
      = Inr [[(''or'', 1), (''it'', 1)], [], [(''to'', 1), (''be'', 2), (''not'', 1)]]"
    by code_simp
  have t: "fst ` set ([[(''or'', 1), (''it'', 1)], [], [(''to'', 1), (''be'', 2), (''not'', 1::int)]] ! 0)
        \<inter> fst ` set ([[(''or'', 1), (''it'', 1)], [], [(''to'', 1), (''be'', 2), (''not'', 1::int)]] ! 2) = {}
     \<and> (\<forall>k\<in>fst ` set ([[(''or'', 1), (''it'', 1)], [], [(''to'', 1), (''be'', 2), (''not'', 1::int)]] ! 0).
          map_of (counts [[(''or'', 1), (''it'', 1)], [], [(''to'', 1), (''be'', 2), (''not'', 1)]]) k
          = map_of ([[(''or'', 1), (''it'', 1)], [], [(''to'', 1), (''be'', 2), (''not'', 1)]] ! 0) k)"
    by (rule reducer_keys_disjoint [OF h]) simp_all
  have "fst ` set [(''or'', 1), (''it'', 1::int)] \<inter> fst ` set [(''to'', 1), (''be'', 2), (''not'', 1::int)] = {}"
    using t by simp
  moreover have "map_of (counts [[(''or'', 1), (''it'', 1)], [], [(''to'', 1), (''be'', 2), (''not'', 1)]]) ''or'' = Some 1"
    using t by simp
  ultimately show ?thesis using h by simp
qed

subsection \<open>Scheduling\<close>

lemma those_Some_nth:
  "those xs = Some ys \<Longrightarrow> length ys = length xs \<and> (\<forall>i<length xs. xs ! i = Some (ys ! i))"
proof (induction xs arbitrary: ys)
  case Nil
  then show ?case by simp
next
  case (Cons x xs)
  then obtain y zs where x: "x = Some y" and zs: "those xs = Some zs" and ys: "ys = y # zs"
    by (auto split: option.splits)
  have IH: "length zs = length xs" "\<forall>i<length xs. xs ! i = Some (zs ! i)"
    using Cons.IH [OF zs] by auto
  have "(x # xs) ! i = Some (ys ! i)" if "i < length (x # xs)" for i
    using that x ys IH(2) by (cases i) auto
  then show ?case using IH(1) ys by simp
qed

lemma sched_ok_submitted: "sched_ok parts n (submitted parts n)"
  by (simp add: sched_ok_def submitted_def)

lemma sched_ok_step:
  assumes "task_step parts n s s'" "sched_ok parts n s"
  shows "sched_ok parts n s'"
  using assms
proof (induction rule: task_step.induct)
  case (mapper_done i s)
  have "map_results parts n ! i = remote_returns (nat n) (apply_map (parts ! i) n)"
    using mapper_done(1) by (simp add: map_results_def)
  then show ?case
    using mapper_done by (auto simp: sched_ok_def nth_list_update)
next
  case (reducer_done j s mres refs arrived)
  have len: "length mres = length parts"
    using those_Some_nth [OF reducer_done(4)] reducer_done(7) by (simp add: sched_ok_def)
  have "mres ! i = map_results parts n ! i" if "i < length parts" for i
  proof -
    have "map_done s ! i = Some (mres ! i)"
      using those_Some_nth [OF reducer_done(4)] reducer_done(7) that
      by (simp add: sched_ok_def)
    then show ?thesis
      using reducer_done(7) that by (simp add: sched_ok_def)
  qed
  then have mres: "mres = map_results parts n"
    using len by (intro nth_equalityI) (simp_all add: map_results_def)
  have new: "\<exists>refs' arrived'. reducer_refs (map_results parts n) (int j) = Inr refs'
      \<and> mset arrived' = mset refs'
      \<and> remote_call apply_reduce arrived = remote_call apply_reduce arrived'"
    using reducer_done(5,6) mres by blast
  show ?case
    unfolding sched_ok_def
  proof (intro conjI allI impI)
    show "length (map_done (s\<lparr>red_done := (red_done s)[j := Some (remote_call apply_reduce arrived)]\<rparr>))
        = length parts"
      using reducer_done(7) by (simp add: sched_ok_def)
    show "length (red_done (s\<lparr>red_done := (red_done s)[j := Some (remote_call apply_reduce arrived)]\<rparr>))
        = nat n"
      using reducer_done(7) by (simp add: sched_ok_def)
  next
    fix i m
    assume "i < length parts"
      "map_done (s\<lparr>red_done := (red_done s)[j := Some (remote_call apply_reduce arrived)]\<rparr>) ! i = Some m"
    then show "m = map_results parts n ! i"
      using reducer_done(7) by (simp add: sched_ok_def)
  next
    fix k d
    assume k: "k < nat n"
      and d: "red_done (s\<lparr>red_done := (red_done s)[j := Some (remote_call apply_reduce arrived)]\<rparr>) ! k = Some d"
    show "\<exists>refs arrived. reducer_refs (map_results parts n) (int k) = Inr refs
              \<and> mset arrived = mset refs \<and> d = remote_call apply_reduce arrived"
    proof (cases "k = j")
      case True
      then have "d = remote_call apply_reduce arrived"
        using d reducer_done(2) by simp
      then show ?thesis using new True by blast
    next
      case False
      then have "red_done s ! k = Some d" using d by simp
      then show ?thesis
        using reducer_done(7) k by (simp add: sched_ok_def)
    qed
  qed
qed

lemma sched_ok_reachable:
  assumes "(task_step parts n)\<^sup>*\<^sup>* (submitted parts n) s"
  shows "sched_ok parts n s"
  using assms
proof (induction rule: rtranclp_induct)
  case base
  show ?case by (rule sched_ok_submitted)
next
  case (step s s')
  then show ?case using sched_ok_step by blast
qed

subsection \<open>Any order gives the same result\<close>

lemma arrived_values:
  assumes "mset arrived = mset (map Inr xs)" (is "_ = mset ?rs")
  shows "\<exists>ys. arrived = map Inr ys \<and> mset ys = mset xs"
proof -
  let ?ys = "map projr arrived"
  have "set arrived = set ?rs"
    using assms by (rule mset_eq_setD)
  then have "\<forall>a\<in>set arrived. Inr (projr a) = a"
    by auto
  then have "map (\<lambda>a. Inr (projr a)) arrived = arrived"
    by (intro map_idI) simp
  then have a: "arrived = map Inr ?ys"
    by (simp add: o_def)
  have "mset ?ys = image_mset projr (mset arrived)"
    by simp
  then have "mset ?ys = image_mset projr (mset ?rs)"
    by (simp only: assms)
  then have "mset ?ys = mset xs"
    by (simp add: multiset.map_comp o_def)
  then show ?thesis using a by blast
qed

lemma mset_concat_cong:
  assumes "mset ys = mset xs"
  shows "mset (concat ys) = mset (concat xs)"
proof -
  have "sum_mset (image_mset mset (mset ys)) = sum_mset (image_mset mset (mset xs))"
    using assms by simp
  then show ?thesis
    by (simp add: mset_concat flip: sum_mset_sum_list)
qed

lemma key_total_mset:
  assumes "mset ps = mset qs"
  shows "key_total k ps = key_total k qs"
proof -
  have "key_total k zs = sum_mset (image_mset snd (filter_mset (\<lambda>p. fst p = k) (mset zs)))" for zs
    by (simp add: key_total_def flip: sum_mset_sum_list)
  then show ?thesis using assms by simp
qed

lemma reduce_permuted:
  assumes "mset ys = mset xs"
  shows "\<exists>d. apply_reduce ys = Inr d \<and> distinct (map fst d)
     \<and> (\<forall>k. map_of d k =
           (if k \<in> fst ` set (concat xs) then Some (key_total k (concat xs)) else None))"
proof -
  have m: "mset (concat ys) = mset (concat xs)"
    using assms by (rule mset_concat_cong)
  then have s: "set (concat ys) = set (concat xs)"
    by (rule mset_eq_setD)
  have t: "key_total k (concat ys) = key_total k (concat xs)" for k
    using m by (rule key_total_mset)
  obtain d where d: "apply_reduce ys = Inr d" "distinct (map fst d)"
    "\<forall>k. map_of d k =
       (if k \<in> fst ` set (concat ys) then Some (key_total k (concat ys)) else None)"
    using reduce_from_empty [of "concat ys"] by (auto simp: apply_reduce_flat)
  have "map_of d k =
       (if k \<in> fst ` set (concat xs) then Some (key_total k (concat xs)) else None)" for k
    using d(3) [rule_format, of k] by (simp only: s t)
  then show ?thesis using d(1,2) by blast
qed

lemma reducer_refs_values:
  assumes "1 < n" "\<forall>p\<in>set (emitted (concat parts)). decodable (fst p)" "j < nat n"
  shows "reducer_refs (map_results parts n) (int j)
     = Inr (map Inr (map (\<lambda>data. bucket_filter n j (emitted data)) parts))"
proof -
  have pos: "0 < n" using assms(1) by simp
  have "map (\<lambda>partition. partition ! j) (ref_lists parts n)
      = map Inr (map (\<lambda>data. bucket_filter n j (emitted data)) parts)"
    using assms(3) by (simp add: ref_lists_ok [OF pos assms(2)])
  then show ?thesis
    by (simp only: reducer_refs_two [OF assms(1,3)])
qed

lemma finished_reducer_ok:
  assumes "1 < n" "\<forall>p\<in>set (emitted (concat parts)). decodable (fst p)" "j < nat n"
    "reducer_refs (map_results parts n) (int j) = Inr refs" "mset arrived = mset refs"
  shows "\<exists>d. remote_call apply_reduce arrived = Inr d \<and> distinct (map fst d)
     \<and> (\<forall>k. map_of d k =
           (if k \<in> fst ` set (bucket_filter n j (emitted (concat parts)))
            then Some (key_total k (bucket_filter n j (emitted (concat parts)))) else None))"
proof -
  let ?xs = "map (\<lambda>data. bucket_filter n j (emitted data)) parts"
  have "refs = map Inr ?xs"
    using assms(4) by (simp add: reducer_refs_values [OF assms(1,2,3)])
  then obtain ys where ys: "arrived = map Inr ys" "mset ys = mset ?xs"
    using assms(5) arrived_values [of arrived ?xs] by auto
  have call: "remote_call apply_reduce arrived = apply_reduce ys"
    by (simp add: ys(1) remote_call_Inr)
  have cc: "concat ?xs = bucket_filter n j (emitted (concat parts))"
    by (rule concat_bucket_filter)
  show ?thesis
    using reduce_permuted [OF ys(2)] unfolding call cc .
qed

lemma finished_reducer_raises:
  assumes "1 < n" "\<exists>p\<in>set (emitted (concat parts)). \<not> decodable (fst p)" "j < nat n"
    "reducer_refs (map_results parts n) (int j) = Inr refs" "mset arrived = mset refs"
  shows "remote_call apply_reduce arrived = Inl UnicodeDecodeError"
proof -
  have pos: "0 < n" using assms(1) by simp
  obtain bad where bad: "bad \<in> set parts" "\<exists>p\<in>set (emitted bad). \<not> decodable (fst p)"
    using assms(2) by (auto simp: emitted_concat)
  have refs: "refs = map (\<lambda>partition. partition ! j) (ref_lists parts n)"
    using assms(4) by (simp add: reducer_refs_two [OF assms(1,3)])
  have "set arrived = set refs"
    using assms(5) by (rule mset_eq_setD)
  then have "Inl UnicodeDecodeError \<in> set arrived"
    and "\<forall>e'. Inl e' \<in> set arrived \<longrightarrow> e' = UnicodeDecodeError"
    using reducer_args_raise [OF pos bad assms(3)] by (simp_all only: refs)
  then have "ray_get arrived = Inl UnicodeDecodeError"
    by (rule ray_get_raises)
  then show ?thesis by (simp add: remote_call_def)
qed

lemma ray_get_values:
  assumes "\<forall>j<length outs. \<exists>d. outs ! j = Inr d \<and> P j d"
  shows "\<exists>ds. ray_get outs = Inr ds \<and> length ds = length outs \<and> (\<forall>j<length outs. P j (ds ! j))"
proof -
  have "\<forall>x\<in>set [0..<length outs]. \<exists>v. (\<lambda>j. outs ! j) x = Inr v \<and> P x v"
    using assms by simp
  from ray_get_collect [OF this]
  obtain ds where "ray_get (map (\<lambda>j. outs ! j) [0..<length outs]) = Inr ds"
    "length ds = length outs" "\<forall>j<length outs. P j (ds ! j)"
    by auto
  then show ?thesis by (auto simp: map_nth)
qed

lemma ray_get_all_Inl:
  assumes "outs \<noteq> []" "\<forall>j<length outs. outs ! j = Inl e"
  shows "ray_get outs = Inl e"
proof -
  have eq: "outs = map (\<lambda>j. Inl e) outs"
    using assms(2) by (intro nth_equalityI) simp_all
  have "ray_get outs = ray_get (map (\<lambda>j. Inl e) outs)"
    using eq by (rule arg_cong)
  then show ?thesis
    using ray_get_all_raise [OF assms(1), of e] by simp
qed

lemma run_job_negative: "n < 0 \<Longrightarrow> run_job corpus n = Inr []"
  by (simp add: run_job_def reducer_results_def partitions_def py_floordiv_def py_range_def
      map_results_def outputs_def counts_def)

lemma outputs_one:
  assumes "partitions corpus 1 = Inr parts"
  shows "outputs (map_results parts 1) 1 = Inl TypeError"
proof -
  have "parts = [take (chunk_of corpus 1) (drop (0 * chunk_of corpus 1) corpus)]"
    using assms partitions_pos [of 1 corpus] by simp
  then obtain x where "parts = [x]" by blast
  then show ?thesis
    by (simp add: map_results_def outputs_def py_range_def reducer_refs_def remote_returns_def)
qed

lemma same_result_refl: "same_result r r"
  by (cases r) simp_all

lemma same_result_sym: "same_result r r' \<Longrightarrow> same_result r' r"
  by (cases r; cases r') simp_all

lemma same_result_trans: "same_result r r' \<Longrightarrow> same_result r' r'' \<Longrightarrow> same_result r r''"
  by (cases r; cases r'; cases r'') simp_all

lemma complete_run_result:
  assumes parts: "partitions corpus n = Inr parts"
    and sub: "outputs (map_results parts n) n = Inr submitted_refs"
    and run: "(task_step parts n)\<^sup>*\<^sup>* (submitted parts n) s"
    and res: "job_result s = Some r"
  shows "same_result r (run_job corpus n)"
proof -
  have ok: "sched_ok parts n s"
    using run by (rule sched_ok_reachable)
  obtain outs where outs: "those (red_done s) = Some outs"
    and r: "r = (case ray_get outs of Inl e \<Rightarrow> Inl e | Inr ds \<Rightarrow> Inr (counts ds))"
    using res by (auto simp: job_result_def split: option.splits)
  have len: "length outs = nat n"
    using those_Some_nth [OF outs] ok by (simp add: sched_ok_def)
  have fin: "\<exists>refs arrived. reducer_refs (map_results parts n) (int j) = Inr refs
      \<and> mset arrived = mset refs \<and> outs ! j = remote_call apply_reduce arrived"
    if "j < nat n" for j
  proof -
    have "red_done s ! j = Some (outs ! j)"
      using those_Some_nth [OF outs] ok that by (simp add: sched_ok_def)
    then show ?thesis using ok that by (simp add: sched_ok_def)
  qed
  have "n \<noteq> 0" using parts by (auto simp: partitions_def py_floordiv_def)
  moreover have "n \<noteq> 1" using parts sub by (auto simp: outputs_one)
  ultimately consider "n < 0" | "1 < n" by linarith
  then show ?thesis
  proof cases
    case 1
    then have "outs = []" using len by simp
    then show ?thesis
      using r 1 by (simp add: run_job_negative counts_def)
  next
    case 2
    then have pos: "0 < n" by simp
    have cat: "concat parts = sharded corpus n"
      using pos parts by (rule concat_partitions)
    let ?E = "emitted (sharded corpus n)"
    show ?thesis
    proof (cases "\<forall>p\<in>set ?E. decodable (fst p)")
      case True
      then have dec: "\<forall>p\<in>set (emitted (concat parts)). decodable (fst p)"
        by (simp add: cat)
      have "\<forall>j<length outs. \<exists>d. outs ! j = Inr d \<and> (distinct (map fst d)
          \<and> (\<forall>k. map_of d k =
                (if k \<in> fst ` set (bucket_filter n j ?E)
                 then Some (key_total k (bucket_filter n j ?E)) else None)))"
      proof (intro allI impI)
        fix j assume "j < length outs"
        then have j: "j < nat n" using len by simp
        obtain refs arrived where a: "reducer_refs (map_results parts n) (int j) = Inr refs"
          "mset arrived = mset refs" "outs ! j = remote_call apply_reduce arrived"
          using fin [OF j] by blast
        show "\<exists>d. outs ! j = Inr d \<and> (distinct (map fst d)
          \<and> (\<forall>k. map_of d k =
                (if k \<in> fst ` set (bucket_filter n j ?E)
                 then Some (key_total k (bucket_filter n j ?E)) else None)))"
          using finished_reducer_ok [OF 2 dec j a(1,2)] unfolding a(3) cat .
      qed
      from ray_get_values [OF this]
      obtain ds where ds: "ray_get outs = Inr ds" "length ds = length outs"
        and each: "\<forall>j<length outs. distinct (map fst (ds ! j))
          \<and> (\<forall>k. map_of (ds ! j) k =
                (if k \<in> fst ` set (bucket_filter n j ?E)
                 then Some (key_total k (bucket_filter n j ?E)) else None))"
        by blast
      have "map_of (counts ds) k = naive_word_count (sharded corpus n) k" for k
      proof (rule merged_counts [OF pos True])
        show "length ds = nat n" using ds(2) len by simp
        show "distinct (map fst (ds ! i))" if "i < nat n" for i
          using each that len by simp
        show "map_of (ds ! i) k =
            (if k \<in> fst ` set (bucket_filter n i ?E)
             then Some (key_total k (bucket_filter n i ?E)) else None)" if "i < nat n" for i k
          using each that len by simp
      qed
      moreover obtain c where c: "run_job corpus n = Inr c"
        "\<forall>k. map_of c k = naive_word_count (sharded corpus n) k"
        using run_job_sharded [OF 2, of corpus] True by (auto simp: all_words_emitted)
      ultimately have "map_of (counts ds) = map_of c"
        by (simp add: fun_eq_iff)
      then show ?thesis
        by (simp add: r ds(1) c(1))
    next
      case False
      then have bad: "\<exists>p\<in>set (emitted (concat parts)). \<not> decodable (fst p)"
        by (simp add: cat)
      have "\<forall>j<length outs. outs ! j = Inl UnicodeDecodeError"
      proof (intro allI impI)
        fix j assume "j < length outs"
        then have j: "j < nat n" using len by simp
        obtain refs arrived where a: "reducer_refs (map_results parts n) (int j) = Inr refs"
          "mset arrived = mset refs" "outs ! j = remote_call apply_reduce arrived"
          using fin [OF j] by blast
        show "outs ! j = Inl UnicodeDecodeError"
          using finished_reducer_raises [OF 2 bad j a(1,2)] by (simp add: a(3))
      qed
      moreover have "outs \<noteq> []" using len 2 by auto
      ultimately have "ray_get outs = Inl UnicodeDecodeError"
        by (intro ray_get_all_Inl)
      moreover have "run_job corpus n = Inl UnicodeDecodeError"
        using reducer_results_raises [OF 2, of corpus] False by (simp add: run_job_def)
      ultimately show ?thesis by (simp add: r)
    qed
  qed
qed

lemma job_run_result:
  assumes "job_run corpus n r"
  shows "same_result r (run_job corpus n)"
  using assms
proof (cases rule: job_run.cases)
  case (partition_raises e)
  then show ?thesis by (simp add: run_job_def reducer_results_def)
next
  case (submit_raises parts e)
  then show ?thesis by (simp add: run_job_def reducer_results_def)
next
  case (completes parts outs s)
  then show ?thesis by (intro complete_run_result)
qed

text \<open>
  Claim C4. Two complete runs of the job cells on the same documents with the same
  partition count return the same result: the same exception, or dictionaries with the
  same key set and the same value for every key, whatever the order in which the mapper
  and reducer tasks finish and whatever the order in which the mappers' buckets reach
  each reducer. That result is the one of \<open>run_job\<close>, where every reducer receives the
  buckets in the order of the mappers; the proof rests on \<open>apply_reduce\<close> summing per
  key, which no arrangement of the buckets changes, and on \<open>apply_map\<close> raising nothing
  but UnicodeDecodeError. (A complete run always exists: \<open>job_run_exists\<close> below.)
\<close>
theorem job_deterministic:
  assumes "job_run corpus n r" and "job_run corpus n r'"
  shows "same_result r r' \<and> same_result r (run_job corpus n)"
proof -
  have a: "same_result r (run_job corpus n)"
    using assms(1) by (rule job_run_result)
  have "same_result r' (run_job corpus n)"
    using assms(2) by (rule job_run_result)
  then have "same_result (run_job corpus n) r'"
    by (rule same_result_sym)
  with a have "same_result r r'"
    by (rule same_result_trans)
  then show ?thesis using a by simp
qed

subsection \<open>A complete run exists\<close>

lemma those_map_Some: "those (map Some xs) = Some xs"
  by (induction xs) simp_all

lemma fill_next:
  "length xs = k \<Longrightarrow> (xs @ replicate (Suc r) None)[k := Some v] = (xs @ [Some v]) @ replicate r None"
  by (simp add: list_update_append)

lemma try_map_Inr_nth:
  "try_map f xs = Inr ys \<Longrightarrow> length ys = length xs \<and> (\<forall>i<length xs. f (xs ! i) = Inr (ys ! i))"
proof (induction xs arbitrary: ys)
  case Nil
  then show ?case by simp
next
  case (Cons x xs)
  then obtain y zs where x: "f x = Inr y" and zs: "try_map f xs = Inr zs" and ys: "ys = y # zs"
    by (auto split: sum.splits)
  have IH: "length zs = length xs" "\<forall>i<length xs. f (xs ! i) = Inr (zs ! i)"
    using Cons.IH [OF zs] by auto
  have "f ((x # xs) ! i) = Inr (ys ! i)" if "i < length (x # xs)" for i
    using that x ys IH(2) by (cases i) auto
  then show ?case using IH(1) ys by simp
qed

lemma mappers_in_order:
  assumes "k \<le> length parts"
  shows "(task_step parts n)\<^sup>*\<^sup>* (submitted parts n)
     \<lparr>map_done = map Some (take k (map_results parts n)) @ replicate (length parts - k) None,
      red_done = replicate (nat n) None\<rparr>"
  using assms
proof (induction k)
  case 0
  show ?case by (simp add: submitted_def)
next
  case (Suc k)
  let ?M = "map_results parts n"
  let ?s = "\<lparr>map_done = map Some (take k ?M) @ replicate (length parts - k) None,
      red_done = replicate (nat n) (None :: dict object_ref option)\<rparr>"
  have k: "k < length parts" using Suc.prems by simp
  have reach: "(task_step parts n)\<^sup>*\<^sup>* (submitted parts n) ?s"
    using Suc by simp
  have lenM: "length ?M = length parts" by (simp add: map_results_def)
  have lenk: "length (map Some (take k ?M)) = k" using k lenM by simp
  have rest: "length parts - k = Suc (length parts - Suc k)" using k by simp
  have none: "map_done ?s ! k = None"
    using k lenk by (simp add: nth_append)
  have step: "task_step parts n ?s
      (?s\<lparr>map_done := (map_done ?s)[k := Some (remote_returns (nat n) (apply_map (parts ! k) n))]\<rparr>)"
    by (rule mapper_done) (use k lenk none in simp_all)
  have Mk: "?M ! k = remote_returns (nat n) (apply_map (parts ! k) n)"
    using k by (simp add: map_results_def)
  have "(map_done ?s)[k := Some (remote_returns (nat n) (apply_map (parts ! k) n))]
      = map Some (take (Suc k) ?M) @ replicate (length parts - Suc k) None"
    using fill_next [OF lenk, of "length parts - Suc k" "?M ! k"] k lenM
    by (simp add: rest Mk take_Suc_conv_app_nth)
  then have "task_step parts n ?s
      \<lparr>map_done = map Some (take (Suc k) ?M) @ replicate (length parts - Suc k) None,
       red_done = replicate (nat n) None\<rparr>"
    using step by simp
  then show ?case using reach by (rule rtranclp.rtrancl_into_rtrancl [rotated])
qed

lemma reducers_in_order:
  assumes sub: "outputs (map_results parts n) n = Inr outs" and "k \<le> nat n"
  shows "(task_step parts n)\<^sup>*\<^sup>* (submitted parts n)
     \<lparr>map_done = map Some (map_results parts n),
      red_done = map Some (take k outs) @ replicate (nat n - k) None\<rparr>"
  using assms(2)
proof (induction k)
  case 0
  have "length (map_results parts n) = length parts"
    by (simp add: map_results_def)
  then show ?case
    using mappers_in_order [of "length parts" parts n] by simp
next
  case (Suc k)
  let ?M = "map_results parts n"
  let ?s = "\<lparr>map_done = map Some ?M,
      red_done = map Some (take k outs) @ replicate (nat n - k) None\<rparr>"
  have k: "k < nat n" using Suc.prems by simp
  have reach: "(task_step parts n)\<^sup>*\<^sup>* (submitted parts n) ?s"
    using Suc by simp
  have nth: "length outs = length (py_range n)"
    "\<forall>i<length (py_range n).
       (case reducer_refs ?M (py_range n ! i) of
          Inl e \<Rightarrow> Inl e
        | Inr refs \<Rightarrow> Inr (remote_call apply_reduce refs)) = Inr (outs ! i)"
    using try_map_Inr_nth [OF sub [unfolded outputs_def]] by auto
  have len: "length outs = nat n"
    using nth(1) by (simp add: py_range_def)
  have "(case reducer_refs ?M (int k) of
          Inl e \<Rightarrow> Inl e
        | Inr refs \<Rightarrow> Inr (remote_call apply_reduce refs)) = Inr (outs ! k)"
    using nth(2) [rule_format, of k] k by (simp add: py_range_def)
  then obtain refs where refs: "reducer_refs ?M (int k) = Inr refs"
    "outs ! k = remote_call apply_reduce refs"
    by (auto split: sum.splits)
  have lenk: "length (map Some (take k outs)) = k" using k len by simp
  have rest: "nat n - k = Suc (nat n - Suc k)" using k by simp
  have none: "red_done ?s ! k = None"
    using k lenk by (simp add: nth_append)
  have step: "task_step parts n ?s
      (?s\<lparr>red_done := (red_done ?s)[k := Some (remote_call apply_reduce refs)]\<rparr>)"
    by (rule reducer_done [where mres = ?M and refs = refs])
      (use k lenk none refs(1) in \<open>simp_all add: those_map_Some\<close>)
  have "(red_done ?s)[k := Some (remote_call apply_reduce refs)]
      = map Some (take (Suc k) outs) @ replicate (nat n - Suc k) None"
    using fill_next [OF lenk, of "nat n - Suc k" "outs ! k"] k len
    by (simp add: rest refs(2) take_Suc_conv_app_nth)
  then have "task_step parts n ?s
      \<lparr>map_done = map Some ?M,
       red_done = map Some (take (Suc k) outs) @ replicate (nat n - Suc k) None\<rparr>"
    using step by simp
  then show ?case using reach by (rule rtranclp.rtrancl_into_rtrancl [rotated])
qed

lemma job_run_exists: "job_run corpus n (run_job corpus n)"
proof (cases "partitions corpus n")
  case (Inl e)
  then have "run_job corpus n = Inl e"
    by (simp add: run_job_def reducer_results_def)
  then show ?thesis using Inl by (simp add: partition_raises)
next
  case parts: (Inr parts)
  show ?thesis
  proof (cases "outputs (map_results parts n) n")
    case (Inl e)
    then have "run_job corpus n = Inl e"
      by (simp add: run_job_def reducer_results_def parts)
    then show ?thesis using parts Inl by (simp add: submit_raises)
  next
    case (Inr outs)
    have "length outs = length (py_range n)"
      using try_map_Inr_nth [OF Inr [unfolded outputs_def]] by auto
    then have len: "length outs = nat n"
      by (simp add: py_range_def)
    let ?s = "\<lparr>map_done = map Some (map_results parts n), red_done = map Some outs\<rparr>"
    have reach: "(task_step parts n)\<^sup>*\<^sup>* (submitted parts n) ?s"
      using reducers_in_order [OF Inr, of "nat n"] len by simp
    have "job_result ?s = Some (run_job corpus n)"
      by (simp add: job_result_def those_map_Some run_job_def reducer_results_def parts Inr
          split: sum.splits)
    with parts Inr reach show ?thesis by (rule completes)
  qed
qed

theorem job_deterministic_witness:
  "job_run [''to'', ''be''] 2 (Inr [(''to'', 1), (''be'', 1)])
   \<and> job_run [''to'', ''be''] 2 (Inr [(''be'', 1), (''to'', 1)])
   \<and> same_result (Inr [(''to'', 1), (''be'', 1)]) (Inr [(''be'', 1), (''to'', 1)])
   \<and> run_job [''to'', ''be''] 2 = Inr [(''to'', 1), (''be'', 1)]"
proof -
  let ?parts = "[[''to''], [''be'']]"
  let ?step = "task_step ?parts 2"
  have run: "run_job [''to'', ''be''] 2 = Inr [(''to'', 1), (''be'', 1)]"
    by code_simp
  have first: "job_run [''to'', ''be''] 2 (Inr [(''to'', 1), (''be'', 1)])"
    using job_run_exists [of "[''to'', ''be'']" 2] by (simp only: run)
  have parts: "partitions [''to'', ''be''] 2 = Inr ?parts"
    by code_simp
  have sub: "outputs (map_results ?parts 2) 2 = Inr [Inr [(''to'', 1), (''be'', 1)], Inr []]"
    by code_simp
  define m0 :: "bucket remote_result" where "m0 = ObjectRefs [Inr [(''to'', 1)], Inr []]"
  define m1 :: "bucket remote_result" where "m1 = ObjectRefs [Inr [(''be'', 1)], Inr []]"
  define r0 :: "dict object_ref" where "r0 = Inr [(''be'', 1), (''to'', 1)]"
  define r1 :: "dict object_ref" where "r1 = Inr []"
  have em0: "remote_returns 2 (apply_map [''to''] 2) = m0"
    unfolding m0_def by code_simp
  have em1: "remote_returns 2 (apply_map [''be''] 2) = m1"
    unfolding m1_def by code_simp
  have refs0: "reducer_refs [m0, m1] 0 = Inr [Inr [(''to'', 1)], Inr [(''be'', 1)]]"
    unfolding m0_def m1_def by code_simp
  have refs1: "reducer_refs [m0, m1] 1 = Inr [Inr [], Inr []]"
    unfolding m0_def m1_def by code_simp
  have er0: "remote_call apply_reduce [Inr [(''be'', 1)], Inr [(''to'', 1)]] = r0"
    unfolding r0_def by code_simp
  have er1: "remote_call apply_reduce [Inr [], Inr []] = r1"
    unfolding r1_def by code_simp
  let ?s0 = "\<lparr>map_done = [None, None], red_done = [None, None]\<rparr> :: sched"
  let ?s1 = "\<lparr>map_done = [None, Some m1], red_done = [None, None]\<rparr> :: sched"
  let ?s2 = "\<lparr>map_done = [Some m0, Some m1], red_done = [None, None]\<rparr> :: sched"
  let ?s3 = "\<lparr>map_done = [Some m0, Some m1], red_done = [None, Some r1]\<rparr> :: sched"
  let ?s4 = "\<lparr>map_done = [Some m0, Some m1], red_done = [Some r0, Some r1]\<rparr> :: sched"
  have init: "submitted ?parts 2 = ?s0"
    by (simp add: submitted_def numeral_2_eq_2)
  have b1: "?step ?s0 ?s1"
    using mapper_done [of 1 ?parts ?s0 2] by (simp add: em1)
  have b2: "?step ?s1 ?s2"
    using mapper_done [of 0 ?parts ?s1 2] by (simp add: em0)
  have b3: "?step ?s2 ?s3"
    using reducer_done [of 1 2 ?s2 "[m0, m1]" "[Inr [], Inr []]" "[Inr [], Inr []]" ?parts]
    by (simp add: refs1 er1)
  have b4: "?step ?s3 ?s4"
    using reducer_done [of 0 2 ?s3 "[m0, m1]" "[Inr [(''to'', 1)], Inr [(''be'', 1)]]"
        "[Inr [(''be'', 1)], Inr [(''to'', 1)]]" ?parts]
    by (simp add: refs0 er0)
  have "?step\<^sup>*\<^sup>* ?s0 ?s1" using b1 by (rule r_into_rtranclp)
  then have "?step\<^sup>*\<^sup>* ?s0 ?s2" using b2 by (rule rtranclp.rtrancl_into_rtrancl)
  then have "?step\<^sup>*\<^sup>* ?s0 ?s3" using b3 by (rule rtranclp.rtrancl_into_rtrancl)
  then have "?step\<^sup>*\<^sup>* ?s0 ?s4" using b4 by (rule rtranclp.rtrancl_into_rtrancl)
  then have reach: "?step\<^sup>*\<^sup>* (submitted ?parts 2) ?s4"
    by (simp only: init)
  have cnt: "counts [[(''be'', 1), (''to'', 1)], []] = [(''be'', 1), (''to'', 1)]"
    by code_simp
  have res: "job_result ?s4 = Some (Inr [(''be'', 1), (''to'', 1)])"
    by (simp add: job_result_def r0_def r1_def cnt)
  have second: "job_run [''to'', ''be''] 2 (Inr [(''be'', 1), (''to'', 1)])"
    using parts sub reach res by (rule completes)
  have "same_result (Inr [(''to'', 1), (''be'', 1)]) (Inr [(''be'', 1), (''to'', 1)])"
    using job_deterministic [OF first second] by simp
  then show ?thesis using first second run by (intro conjI)
qed

end
